theory Spec2Isabelle
  imports Main "HOL-Library.Word"
begin

unbundle bit_operations_syntax

section \<open>Multiplexing N streams into one file (stream.c)\<close>

text \<open>
  A shallow embedding of \<^verbatim>\<open>stream.c\<close>. The C integer types are kept:
  \<^verbatim>\<open>uchar\<close>, \<^verbatim>\<open>u16\<close> and \<^verbatim>\<open>u32\<close> are words of 8, 16 and 32 bits
  (arithmetic wraps around); \<^verbatim>\<open>int\<close> and \<^verbatim>\<open>off_t\<close> are mathematical integers
  (signed overflow is undefined in C and is not modelled); a conversion between the two
  is written out (\<open>of_int\<close>, \<open>uint\<close>, \<open>sint\<close>).
\<close>

type_synonym uchar = "8 word"
type_synonym u16 = "16 word"
type_synonym u32 = "32 word"

definition CTYPE_NONE :: int where
  "CTYPE_NONE = 3"

definition CTYPE_BZIP2 :: int where
  "CTYPE_BZIP2 = 4"

subsection \<open>The file behind the descriptor\<close>

text \<open>
  The open file a descriptor names: its bytes, the file offset, and whether the
  descriptor was opened for writing. \<^verbatim>\<open>write\<close> on a descriptor that is not open for
  writing returns -1; on a writable one it stores all the bytes at the offset (a hole
  left by a seek past the end reads as zeros). \<^verbatim>\<open>read\<close> returns the bytes that are
  there, at most the count asked for; with a count above \<^verbatim>\<open>SSIZE_MAX\<close> (the
  \<^verbatim>\<open>size_t\<close> a negative \<^verbatim>\<open>int\<close> turns into) the range of the buffer leaves the
  address space and \<^verbatim>\<open>read\<close> fails with -1 (\<^verbatim>\<open>EFAULT\<close>), storing nothing and
  leaving the offset. \<^verbatim>\<open>lseek\<close> with \<^verbatim>\<open>SEEK_SET\<close> fails on a negative offset.
\<close>

record ofile =
  fdata :: "uchar list"
  fpos :: nat
  fwritable :: bool

definition overwrite :: "uchar list \<Rightarrow> nat \<Rightarrow> uchar list \<Rightarrow> uchar list" where
  "overwrite d pos bs =
     (if bs = [] then d
      else take pos d @ replicate (pos - length d) 0 @ bs @ drop (pos + length bs) d)"

definition sys_write :: "ofile \<Rightarrow> uchar list \<Rightarrow> int \<times> ofile" where
  "sys_write f bs =
     (if fwritable f
      then (int (length bs),
            f\<lparr>fdata := overwrite (fdata f) (fpos f) bs, fpos := fpos f + length bs\<rparr>)
      else (-1, f))"

definition sys_read :: "ofile \<Rightarrow> nat \<Rightarrow> int \<times> uchar list \<times> ofile" where
  "sys_read f count =
     (if 2 ^ 63 \<le> count then (-1, [], f)
      else let bs = take count (drop (fpos f) (fdata f))
           in (int (length bs), bs, f\<lparr>fpos := fpos f + length bs\<rparr>))"

definition sys_lseek_set :: "ofile \<Rightarrow> int \<Rightarrow> int \<times> ofile" where
  "sys_lseek_set f off = (if off < 0 then (-1, f) else (off, f\<lparr>fpos := nat off\<rparr>))"

definition sys_lseek_cur :: "ofile \<Rightarrow> int" where
  "sys_lseek_cur f = int (fpos f)"

subsection \<open>Wire codec\<close>

text \<open>
  \<^verbatim>\<open>write_buf(f, p, len)\<close> is given the \<^verbatim>\<open>len\<close> bytes at \<^verbatim>\<open>p\<close> as a list;
  the result is the C return value and the file afterwards.
\<close>

definition write_buf :: "ofile \<Rightarrow> uchar list \<Rightarrow> int \<times> ofile" where
  "write_buf f p =
     (let (ret, f') = sys_write f p
      in if ret = -1 then (-1, f')
         else if ret \<noteq> int (length p) then (-1, f')
         else (0, f'))"

definition write_u8 :: "ofile \<Rightarrow> uchar \<Rightarrow> int \<times> ofile" where
  "write_u8 f v = write_buf f [v]"

definition u16_bytes :: "u16 \<Rightarrow> uchar list" where
  "u16_bytes v = [ucast (v AND 0xFF), ucast (drop_bit 8 v AND 0xFF)]"

definition write_u16 :: "ofile \<Rightarrow> u16 \<Rightarrow> int \<times> ofile" where
  "write_u16 f v = write_buf f (u16_bytes v)"

definition write_u32 :: "ofile \<Rightarrow> u32 \<Rightarrow> int \<times> ofile" where
  "write_u32 f v =
     (let (r1, f1) = write_u16 f (ucast (v AND 0xFFFF))
      in if r1 \<noteq> 0 then (-1, f1)
         else let (r2, f2) = write_u16 f1 (ucast (drop_bit 16 v))
              in if r2 \<noteq> 0 then (-1, f2) else (0, f2))"

text \<open>
  \<^verbatim>\<open>read_buf(f, p, len)\<close>: the C return value, the bytes \<^verbatim>\<open>read\<close> stored at
  \<^verbatim>\<open>p\<close> (also when the read was short), and the file afterwards. The \<^verbatim>\<open>int\<close>
  count reaches \<^verbatim>\<open>read\<close> as a \<^verbatim>\<open>size_t\<close> of 64 bits.
\<close>

definition read_buf :: "ofile \<Rightarrow> int \<Rightarrow> int \<times> uchar list \<times> ofile" where
  "read_buf f len =
     (let (ret, bs, f') = sys_read f (nat (len mod 2 ^ 64))
      in if ret = -1 then (-1, bs, f')
         else if ret \<noteq> len then (-1, bs, f')
         else (0, bs, f'))"

text \<open>
  The readers of integers return \<open>Some v\<close> where the C function returns 0 and has
  stored \<open>v\<close> through its pointer, and \<open>None\<close> where it returns -1 (nothing is
  stored then).
\<close>

definition read_u8 :: "ofile \<Rightarrow> uchar option \<times> ofile" where
  "read_u8 f =
     (let (r, bs, f') = read_buf f 1
      in if r \<noteq> 0 then (None, f') else (case bs of [] \<Rightarrow> None | c # _ \<Rightarrow> Some c, f'))"

definition read_u16 :: "ofile \<Rightarrow> u16 option \<times> ofile" where
  "read_u16 f =
     (let (r, p, f') = read_buf f 2
      in if r \<noteq> 0 then (None, f')
         else (case p of p0 # p1 # _ \<Rightarrow> Some (push_bit 8 (ucast p1) OR ucast p0) | _ \<Rightarrow> None, f'))"

definition read_u32 :: "ofile \<Rightarrow> u32 option \<times> ofile" where
  "read_u32 f =
     (case read_u16 f of
        (None, f1) \<Rightarrow> (None, f1)
      | (Some v1, f1) \<Rightarrow>
          (case read_u16 f1 of
             (None, f2) \<Rightarrow> (None, f2)
           | (Some v2, f2) \<Rightarrow> (Some (push_bit 16 (ucast v2) OR ucast v1), f2)))"

text \<open>The four bytes \<^verbatim>\<open>write_u32\<close> emits for a value.\<close>

definition u32_bytes :: "u32 \<Rightarrow> uchar list" where
  "u32_bytes v = u16_bytes (ucast (v AND 0xFFFF)) @ u16_bytes (ucast (drop_bit 16 v))"

subsection \<open>Memory and the block codec\<close>

text \<open>
  What the program takes from its platform: whether \<^verbatim>\<open>malloc\<close> of a size returns
  a block, the indeterminate bytes a fresh block holds, and the block codec (bzlib).
  A heap block is the list of its bytes, \<^verbatim>\<open>NULL\<close> is \<open>None\<close>, and \<^verbatim>\<open>free\<close>
  leaves no trace. An access outside a block, or through \<^verbatim>\<open>NULL\<close>, is the outcome
  \<open>MemFault\<close>: the behaviour of the C program is undefined from there on.
\<close>

record env =
  malloc_ok :: "nat \<Rightarrow> bool"
  junk :: "nat \<Rightarrow> nat \<Rightarrow> uchar"
  bz_compress :: "uchar list \<Rightarrow> int \<Rightarrow> int \<Rightarrow> uchar list option"
  bz_decompress :: "uchar list \<Rightarrow> uchar list option"

datatype 'a result = MemFault | Ret 'a

definition fresh :: "env \<Rightarrow> nat \<Rightarrow> uchar list" where
  "fresh e n = map (junk e n) [0..<n]"

definition malloc :: "env \<Rightarrow> nat \<Rightarrow> uchar list option" where
  "malloc e n = (if malloc_ok e n then Some (fresh e n) else None)"

text \<open>Storing bytes into a block at an offset (the caller checks the bounds).\<close>

definition store :: "uchar list \<Rightarrow> nat \<Rightarrow> uchar list \<Rightarrow> uchar list" where
  "store b off bs = take off b @ bs @ drop (off + length bs) b"

text \<open>
  Modelled from the spec: the block codec is an external collaborator (bzlib, not part
  of the sources). Its contract: compress and decompress write at most the destination's
  capacity and report the actual size, and fail when the output would not fit. The
  functions themselves are parameters (\<open>bz_compress\<close>, \<open>bz_decompress\<close>).
\<close>

definition BZ2_bzBuffToBuffCompress ::
    "env \<Rightarrow> nat \<Rightarrow> uchar list \<Rightarrow> int \<Rightarrow> int \<Rightarrow> uchar list option" where
  "BZ2_bzBuffToBuffCompress e destLen source blockSize100k workFactor =
     (case bz_compress e source blockSize100k workFactor of
        None \<Rightarrow> None
      | Some out \<Rightarrow> if length out \<le> destLen then Some out else None)"

definition BZ2_bzBuffToBuffDecompress :: "env \<Rightarrow> nat \<Rightarrow> uchar list \<Rightarrow> uchar list option" where
  "BZ2_bzBuffToBuffDecompress e destLen source =
     (case bz_decompress e source of
        None \<Rightarrow> None
      | Some out \<Rightarrow> if length out \<le> destLen then Some out else None)"

text \<open>
  Modelled from the spec: the macro \<^verbatim>\<open>MIN\<close> comes from \<^verbatim>\<open>rzip.h\<close>, which is not
  among the sources; the spec reads it as the minimum of its two arguments. In C the
  arguments are first brought to a common type, which the callers below write out. (\<open>MIN\<close> itself is
  taken by the binder of HOL, hence the suffix.)
\<close>

definition MIN_c :: "'a::linorder \<Rightarrow> 'a \<Rightarrow> 'a" where
  "MIN_c a b = (if a < b then a else b)"

subsection \<open>Streams and sessions\<close>

record stream =
  last_head :: u32
  buf :: "uchar list option"
  buflen :: int
  bufp :: int
  bzip_level :: int

text \<open>
  \<open>fd\<close> holds the state of the open file the descriptor names; the session has the
  sole use of it between open and close.
\<close>

record stream_info =
  s :: "stream list"
  num_streams :: int
  fd :: ofile
  bufsize :: u32
  cur_pos :: u32
  initial_pos :: int
  total_read :: u32

text \<open>An assignment to fields of \<^verbatim>\<open>sinfo->s[i]\<close>.\<close>

definition upd_s :: "stream_info \<Rightarrow> nat \<Rightarrow> (stream \<Rightarrow> stream) \<Rightarrow> stream_info" where
  "upd_s sinfo i g = sinfo\<lparr>s := (s sinfo)[i := g (s sinfo ! i)]\<rparr>"

text \<open>Sizes of the two structs on an LP64 platform, for the allocations of a session.\<close>

definition sizeof_stream :: nat where
  "sizeof_stream = 32"

definition sizeof_stream_info :: nat where
  "sizeof_stream_info = 40"

text \<open>
  \<^verbatim>\<open>calloc(sizeof(sinfo->s[0]), n)\<close>: zeroed stream records. A negative \<^verbatim>\<open>n\<close>
  becomes a \<^verbatim>\<open>size_t\<close> so large that the product overflows, and \<^verbatim>\<open>calloc\<close> fails.
\<close>

definition zero_stream :: stream where
  "zero_stream = \<lparr>last_head = 0, buf = None, buflen = 0, bufp = 0, bzip_level = 0\<rparr>"

definition calloc_streams :: "env \<Rightarrow> int \<Rightarrow> stream list option" where
  "calloc_streams e n =
     (if n < 0 \<or> \<not> malloc_ok e (sizeof_stream * nat n) then None
      else Some (replicate (nat n) zero_stream))"

subsection \<open>Compression gateway\<close>

definition compress_buf :: "env \<Rightarrow> stream \<Rightarrow> int \<Rightarrow> u32 \<Rightarrow> (stream \<times> int \<times> u32) result" where
  "compress_buf e st c_type c_len =
     (let dlen = (of_int (buflen st - 1) :: u32)
      in if bzip_level st = 0 then Ret (st, c_type, c_len)
         else case malloc e (unat dlen) of
                None \<Rightarrow> Ret (st, c_type, c_len)
              | Some c_buf \<Rightarrow>
                  (case buf st of
                     None \<Rightarrow> MemFault
                   | Some b \<Rightarrow>
                       let sourceLen = unat (of_int (buflen st) :: u32)
                       in if sourceLen > length b then MemFault
                          else (case BZ2_bzBuffToBuffCompress e (unat dlen) (take sourceLen b)
                                       (bzip_level st) (bzip_level st * 10) of
                                  None \<Rightarrow> Ret (st, c_type, c_len)
                                | Some out \<Rightarrow>
                                    Ret (st\<lparr>buf := Some (store c_buf 0 out)\<rparr>,
                                         CTYPE_BZIP2, of_nat (length out)))))"

definition decompress_buf :: "env \<Rightarrow> stream \<Rightarrow> u32 \<Rightarrow> int \<Rightarrow> (int \<times> stream) result" where
  "decompress_buf e st c_len c_type =
     (let dlen = (of_int (buflen st) :: u32)
      in if c_type = CTYPE_NONE then Ret (0, st)
         else case malloc e (unat dlen) of
                None \<Rightarrow> Ret (-1, st\<lparr>buf := None\<rparr>)
              | Some d \<Rightarrow>
                  (case buf st of
                     None \<Rightarrow> MemFault
                   | Some c_buf \<Rightarrow>
                       if unat c_len > length c_buf then MemFault
                       else (case BZ2_bzBuffToBuffDecompress e (unat dlen)
                                    (take (unat c_len) c_buf) of
                               None \<Rightarrow> Ret (-1, st\<lparr>buf := Some d\<rparr>)
                             | Some out \<Rightarrow>
                                 if (of_nat (length out) :: u32) \<noteq> of_int (buflen st)
                                 then Ret (-1, st\<lparr>buf := Some (store d 0 out)\<rparr>)
                                 else Ret (0, st\<lparr>buf := Some (store d 0 out)\<rparr>))))"

subsection \<open>Seeking\<close>

definition seekto :: "stream_info \<Rightarrow> u32 \<Rightarrow> int \<times> stream_info" where
  "seekto sinfo pos =
     (let spos = uint pos + initial_pos sinfo;
          (r, f') = sys_lseek_set (fd sinfo) spos
      in if r \<noteq> spos then (-1, sinfo\<lparr>fd := f'\<rparr>) else (0, sinfo\<lparr>fd := f'\<rparr>))"

subsection \<open>Opening a session\<close>

text \<open>
  A loop \<^verbatim>\<open>for (i=0;i<n;i++)\<close> whose bound does not change is a recursion over the
  indices \<open>[0..<nat n]\<close>. \<^verbatim>\<open>NULL\<close> is \<open>None\<close>.
\<close>

fun alloc_bufs :: "env \<Rightarrow> stream_info \<Rightarrow> int \<Rightarrow> nat list \<Rightarrow> stream_info option" where
  "alloc_bufs e sinfo level [] = Some sinfo"
| "alloc_bufs e sinfo level (i # is) =
     (case malloc e (unat (bufsize sinfo)) of
        None \<Rightarrow> None
      | Some b \<Rightarrow>
          alloc_bufs e (upd_s sinfo i (\<lambda>st. st\<lparr>buf := Some b, bzip_level := level\<rparr>))
            level is)"

text \<open>The initial headers; the results of the four writes are not looked at.\<close>

fun write_initial_headers :: "stream_info \<Rightarrow> nat list \<Rightarrow> stream_info" where
  "write_initial_headers sinfo [] = sinfo"
| "write_initial_headers sinfo (i # is) =
     (let sinfo1 = upd_s sinfo i (\<lambda>st. st\<lparr>last_head := cur_pos sinfo + 9\<rparr>);
          (r1, f1) = write_u8 (fd sinfo1) (of_int CTYPE_NONE);
          (r2, f2) = write_u32 f1 0;
          (r3, f3) = write_u32 f2 0;
          (r4, f4) = write_u32 f3 0
      in write_initial_headers (sinfo1\<lparr>fd := f4, cur_pos := cur_pos sinfo1 + 13\<rparr>) is)"

text \<open>
  \<^verbatim>\<open>open_stream_out\<close> leaves \<^verbatim>\<open>total_read\<close> uninitialised; a write-session never
  reads it, and the model puts 0 there. The parameter \<^verbatim>\<open>bzip_level\<close> is
  \<open>level\<close> here, as the field of that name is a constant.
\<close>

definition open_stream_out :: "env \<Rightarrow> ofile \<Rightarrow> int \<Rightarrow> int \<Rightarrow> stream_info option" where
  "open_stream_out e f n level =
     (if \<not> malloc_ok e sizeof_stream_info then None
      else let sinfo = \<lparr>s = [], num_streams = n, fd = f,
                        bufsize = (if level = 0 then 100 * 1024
                                   else of_int (100 * 1024 * level)),
                        cur_pos = 0, initial_pos = sys_lseek_cur f, total_read = 0\<rparr>
           in case calloc_streams e n of
                None \<Rightarrow> None
              | Some arr \<Rightarrow>
                  (case alloc_bufs e (sinfo\<lparr>s := arr\<rparr>) level [0..<nat n] of
                     None \<Rightarrow> None
                   | Some sinfo1 \<Rightarrow> Some (write_initial_headers sinfo1 [0..<nat n])))"

text \<open>
  The header loop of \<^verbatim>\<open>open_stream_in\<close>, with its \<^verbatim>\<open>goto again\<close>: the retry
  keeps \<open>i\<close> and reads on from where the file offset is.
\<close>

function in_headers :: "stream_info \<Rightarrow> nat \<Rightarrow> nat \<Rightarrow> stream_info option" where
  "in_headers sinfo i n =
     (if \<not> i < n then Some sinfo
      else case read_u8 (fd sinfo) of
             (None, f1) \<Rightarrow> None
           | (Some c, f1) \<Rightarrow>
         (case read_u32 f1 of
             (None, f2) \<Rightarrow> None
           | (Some v1, f2) \<Rightarrow>
         (case read_u32 f2 of
             (None, f3) \<Rightarrow> None
           | (Some v2, f3) \<Rightarrow>
         (case read_u32 f3 of
             (None, f4) \<Rightarrow> None
           | (Some lh, f4) \<Rightarrow>
               let sinfo1 = upd_s (sinfo\<lparr>fd := f4\<rparr>) i (\<lambda>st. st\<lparr>last_head := lh\<rparr>)
               in if uint c = CTYPE_NONE \<and> v1 = 0 \<and> v2 = 0 \<and> lh = 0 \<and> i = 0
                  then in_headers (sinfo1\<lparr>initial_pos := initial_pos sinfo1 + 13\<rparr>) i n
                  else let sinfo2 = sinfo1\<lparr>total_read := total_read sinfo1 + 13\<rparr>
                       in if uint c \<noteq> CTYPE_NONE then None
                          else if v1 \<noteq> 0 then None
                          else if v2 \<noteq> 0 then None
                          else in_headers sinfo2 (i + 1) n))))"
  by pat_completeness auto
termination
proof -
  have r8: "g' = g\<lparr>fpos := fpos g + 1\<rparr> \<and> fpos g < length (fdata g)"
    if "read_u8 g = (Some b, g')" for g b g'
    using that
    by (auto simp: read_u8_def read_buf_def sys_read_def Let_def
             split: if_splits list.splits)
  have r16: "g' = g\<lparr>fpos := fpos g + 2\<rparr>"
    if "read_u16 g = (Some b, g')" for g b g'
    using that
    by (auto simp: read_u16_def read_buf_def sys_read_def Let_def
             split: if_splits list.splits)
  have r32: "g' = g\<lparr>fpos := fpos g + 4\<rparr>"
    if "read_u32 g = (Some b, g')" for g b g'
  proof -
    from that obtain a1 g1 a2 where 1: "read_u16 g = (Some a1, g1)" and 2: "read_u16 g1 = (Some a2, g')"
      by (auto simp: read_u32_def split: prod.splits option.splits)
    show ?thesis using r16[OF 1] r16[OF 2] by simp
  qed
  show ?thesis
    by (relation "measures [\<lambda>(sinfo, i, n). n - i,
                            \<lambda>(sinfo, i, n). length (fdata (fd sinfo)) - fpos (fd sinfo)]")
       (auto simp: upd_s_def dest!: r8[OF sym] r32[OF sym])
qed

definition open_stream_in :: "env \<Rightarrow> ofile \<Rightarrow> int \<Rightarrow> stream_info option" where
  "open_stream_in e f n =
     (if \<not> malloc_ok e sizeof_stream_info then None
      else let sinfo = \<lparr>s = [], num_streams = n, fd = f, bufsize = 0, cur_pos = 0,
                        initial_pos = sys_lseek_cur f, total_read = 0\<rparr>
           in case calloc_streams e n of
                None \<Rightarrow> None
              | Some arr \<Rightarrow> in_headers (sinfo\<lparr>s := arr\<rparr>) 0 (nat n))"

subsection \<open>Flush and fill\<close>

text \<open>
  The results are the C return value and the session afterwards. The stream index is
  checked against the array first: an index outside it is a \<open>MemFault\<close>.
\<close>

definition flush_buffer :: "env \<Rightarrow> stream_info \<Rightarrow> nat \<Rightarrow> (int \<times> stream_info) result" where
  "flush_buffer e sinfo stream =
     (if \<not> stream < length (s sinfo) then MemFault
      else
        let c_type = CTYPE_NONE;
            c_len = (of_int (buflen (s sinfo ! stream)) :: u32);
            (r1, sinfo1) = seekto sinfo (last_head (s sinfo ! stream))
        in if r1 \<noteq> 0 then Ret (-1, sinfo1)
        else
        let (r2, f2) = write_u32 (fd sinfo1) (cur_pos sinfo1);
            sinfo2 = sinfo1\<lparr>fd := f2\<rparr>
        in if r2 \<noteq> 0 then Ret (-1, sinfo2)
        else
        let sinfo3 = upd_s sinfo2 stream (\<lambda>st. st\<lparr>last_head := cur_pos sinfo2 + 9\<rparr>);
            (r4, sinfo4) = seekto sinfo3 (cur_pos sinfo3)
        in if r4 \<noteq> 0 then Ret (-1, sinfo4)
        else
        (case compress_buf e (s sinfo4 ! stream) c_type c_len of
           MemFault \<Rightarrow> MemFault
         | Ret (st, c_type, c_len) \<Rightarrow>
        let sinfo5 = upd_s sinfo4 stream (\<lambda>_. st);
            (r6, f6) = write_u8 (fd sinfo5) (of_int c_type)
        in if r6 \<noteq> 0 then Ret (-1, sinfo5\<lparr>fd := f6\<rparr>)
        else
        let (r7, f7) = write_u32 f6 c_len
        in if r7 \<noteq> 0 then Ret (-1, sinfo5\<lparr>fd := f7\<rparr>)
        else
        let (r8, f8) = write_u32 f7 (of_int (buflen (s sinfo5 ! stream)))
        in if r8 \<noteq> 0 then Ret (-1, sinfo5\<lparr>fd := f8\<rparr>)
        else
        let (r9, f9) = write_u32 f8 0
        in if r9 \<noteq> 0 then Ret (-1, sinfo5\<lparr>fd := f9\<rparr>)
        else
        let sinfo10 = sinfo5\<lparr>fd := f9, cur_pos := cur_pos sinfo5 + 13\<rparr>
        in (case buf (s sinfo10 ! stream) of
              None \<Rightarrow> MemFault
            | Some b \<Rightarrow>
        if sint c_len < 0 \<or> nat (sint c_len) > length b then MemFault
        else
        let (r11, f11) = write_buf (fd sinfo10) (take (nat (sint c_len)) b);
            sinfo11 = sinfo10\<lparr>fd := f11\<rparr>
        in if r11 \<noteq> 0 then Ret (-1, sinfo11)
        else
        let sinfo12 = sinfo11\<lparr>cur_pos := cur_pos sinfo11 + c_len\<rparr>;
            sinfo13 = upd_s sinfo12 stream (\<lambda>st. st\<lparr>buflen := 0\<rparr>)
        in (case malloc e (unat (bufsize sinfo13)) of
              None \<Rightarrow> Ret (-1, upd_s sinfo13 stream (\<lambda>st. st\<lparr>buf := None\<rparr>))
            | Some b' \<Rightarrow> Ret (0, upd_s sinfo13 stream (\<lambda>st. st\<lparr>buf := Some b'\<rparr>))))))"

definition fill_buffer :: "env \<Rightarrow> stream_info \<Rightarrow> nat \<Rightarrow> (int \<times> stream_info) result" where
  "fill_buffer e sinfo stream =
     (if \<not> stream < length (s sinfo) then MemFault
      else
        let (r1, sinfo1) = seekto sinfo (last_head (s sinfo ! stream))
        in if r1 \<noteq> 0 then Ret (-1, sinfo1)
        else
        (case read_u8 (fd sinfo1) of
           (None, f2) \<Rightarrow> Ret (-1, sinfo1\<lparr>fd := f2\<rparr>)
         | (Some c_type, f2) \<Rightarrow>
        (case read_u32 f2 of
           (None, f3) \<Rightarrow> Ret (-1, sinfo1\<lparr>fd := f3\<rparr>)
         | (Some c_len, f3) \<Rightarrow>
        (case read_u32 f3 of
           (None, f4) \<Rightarrow> Ret (-1, sinfo1\<lparr>fd := f4\<rparr>)
         | (Some u_len, f4) \<Rightarrow>
        (case read_u32 f4 of
           (None, f5) \<Rightarrow> Ret (-1, sinfo1\<lparr>fd := f5\<rparr>)
         | (Some lh, f5) \<Rightarrow>
        let sinfo5 = upd_s (sinfo1\<lparr>fd := f5\<rparr>) stream (\<lambda>st. st\<lparr>last_head := lh\<rparr>);
            sinfo6 = sinfo5\<lparr>total_read := total_read sinfo5 + 13\<rparr>
        in (case malloc e (unat u_len) of
              None \<Rightarrow> Ret (-1, upd_s sinfo6 stream (\<lambda>st. st\<lparr>buf := None\<rparr>))
            | Some b \<Rightarrow>
        let (r7, bs, f7) = read_buf (fd sinfo6) (sint c_len)
        in if length bs > length b then MemFault
        else
        let sinfo7 = upd_s (sinfo6\<lparr>fd := f7\<rparr>) stream (\<lambda>st. st\<lparr>buf := Some (store b 0 bs)\<rparr>)
        in if r7 \<noteq> 0 then Ret (-1, sinfo7)
        else
        let sinfo8 = sinfo7\<lparr>total_read := total_read sinfo7 + c_len\<rparr>;
            sinfo9 = upd_s sinfo8 stream (\<lambda>st. st\<lparr>buflen := sint u_len, bufp := 0\<rparr>)
        in (case decompress_buf e (s sinfo9 ! stream) c_len (uint c_type) of
              MemFault \<Rightarrow> MemFault
            | Ret (r10, st) \<Rightarrow>
                if r10 \<noteq> 0 then Ret (-1, upd_s sinfo9 stream (\<lambda>_. st))
                else Ret (0, upd_s sinfo9 stream (\<lambda>_. st)))))))))"

subsection \<open>Writing and reading a stream\<close>

text \<open>
  \<^verbatim>\<open>write_stream(ss, stream, p, len)\<close>: \<open>p\<close> is the list of the bytes at the
  pointer. The loops may not end (a session with \<open>bufsize = 0\<close> flushes forever), so
  they are partial functions: \<open>None\<close> is a call that does not return.
\<close>

partial_function (option) write_loop ::
    "env \<Rightarrow> stream_info \<Rightarrow> nat \<Rightarrow> uchar list \<Rightarrow> int \<Rightarrow> (int \<times> stream_info) result option" where
  "write_loop e sinfo stream p len =
     (if len = 0 then Some (Ret (0, sinfo))
      else
        let st = s sinfo ! stream;
            n = sint (MIN_c (bufsize sinfo - of_int (buflen st)) (of_int len :: u32))
        in (case buf st of
              None \<Rightarrow> Some MemFault
            | Some b \<Rightarrow>
        if n < 0 \<or> buflen st < 0 \<or> nat (buflen st) + nat n > length b \<or> nat n > length p
        then Some MemFault
        else
        let sinfo1 = upd_s sinfo stream
                       (\<lambda>st. st\<lparr>buf := Some (store b (nat (buflen st)) (take (nat n) p)),
                                buflen := buflen st + n\<rparr>);
            p1 = drop (nat n) p;
            len1 = len - n
        in if (of_int (buflen (s sinfo1 ! stream)) :: u32) = bufsize sinfo1
           then (case flush_buffer e sinfo1 stream of
                   MemFault \<Rightarrow> Some MemFault
                 | Ret (r, sinfo2) \<Rightarrow>
                     if r \<noteq> 0 then Some (Ret (-1, sinfo2))
                     else write_loop e sinfo2 stream p1 len1)
           else write_loop e sinfo1 stream p1 len1))"

declare write_loop.simps [code]

definition write_stream ::
    "env \<Rightarrow> stream_info \<Rightarrow> nat \<Rightarrow> uchar list \<Rightarrow> int \<Rightarrow> (int \<times> stream_info) result option" where
  "write_stream e sinfo stream p len =
     (if \<not> stream < length (s sinfo) then Some MemFault
      else write_loop e sinfo stream p len)"

text \<open>
  \<^verbatim>\<open>read_stream(ss, stream, p, len)\<close>: the result carries the return value, the
  bytes copied to \<open>p\<close> so far (in order) and the session.
\<close>

partial_function (option) read_loop ::
    "env \<Rightarrow> stream_info \<Rightarrow> nat \<Rightarrow> uchar list \<Rightarrow> int \<Rightarrow> int
       \<Rightarrow> (int \<times> uchar list \<times> stream_info) result option" where
  "read_loop e sinfo stream p len ret =
     (if len = 0 then Some (Ret (ret, p, sinfo))
      else
        let st = s sinfo ! stream;
            n = MIN_c (buflen st - bufp st) len
        in (case (if n > 0
                  then (case buf st of
                          None \<Rightarrow> MemFault
                        | Some b \<Rightarrow>
                            if bufp st < 0 \<or> nat (bufp st) + nat n > length b then MemFault
                            else Ret (upd_s sinfo stream (\<lambda>st. st\<lparr>bufp := bufp st + n\<rparr>),
                                      p @ take (nat n) (drop (nat (bufp st)) b),
                                      len - n, ret + n))
                  else Ret (sinfo, p, len, ret)) of
              MemFault \<Rightarrow> Some MemFault
            | Ret (sinfo1, p1, len1, ret1) \<Rightarrow>
                if len1 \<noteq> 0 \<and> bufp (s sinfo1 ! stream) = buflen (s sinfo1 ! stream)
                then (case fill_buffer e sinfo1 stream of
                        MemFault \<Rightarrow> Some MemFault
                      | Ret (r, sinfo2) \<Rightarrow>
                          if r \<noteq> 0 then Some (Ret (-1, p1, sinfo2))
                          else if bufp (s sinfo2 ! stream) = buflen (s sinfo2 ! stream)
                          then Some (Ret (ret1, p1, sinfo2))
                          else read_loop e sinfo2 stream p1 len1 ret1)
                else read_loop e sinfo1 stream p1 len1 ret1))"

declare read_loop.simps [code]

definition read_stream ::
    "env \<Rightarrow> stream_info \<Rightarrow> nat \<Rightarrow> int \<Rightarrow> (int \<times> uchar list \<times> stream_info) result option" where
  "read_stream e sinfo stream len =
     (if \<not> stream < length (s sinfo) then Some MemFault
      else read_loop e sinfo stream [] len 0)"

text \<open>
  The body of the loop of \<^verbatim>\<open>read_stream\<close>, in its two halves. \<open>read_copy\<close> is the
  first: the copy of \<open>n = MIN(buflen - bufp, len)\<close> bytes out of the buffer, with the
  updates of \<open>bufp\<close>, \<open>p\<close>, \<open>len\<close> and \<open>ret\<close>. \<open>read_iter\<close> is one whole
  iteration after which the loop goes on: the copy, and, when bytes are still asked for
  and the buffer is used up, a fill that returns 0 and leaves bytes in the buffer. The
  iterations of a call are the chain of \<open>read_iter\<close> from \<open>(sinfo, [], len, 0)\<close>.
\<close>

definition read_copy ::
    "stream_info \<Rightarrow> nat \<Rightarrow> uchar list \<Rightarrow> int \<Rightarrow> int
       \<Rightarrow> (stream_info \<times> uchar list \<times> int \<times> int) result" where
  "read_copy sinfo stream p len ret =
     (let st = s sinfo ! stream;
          n = MIN_c (buflen st - bufp st) len
      in if n > 0
         then (case buf st of
                 None \<Rightarrow> MemFault
               | Some b \<Rightarrow>
                   if bufp st < 0 \<or> nat (bufp st) + nat n > length b then MemFault
                   else Ret (upd_s sinfo stream (\<lambda>st. st\<lparr>bufp := bufp st + n\<rparr>),
                             p @ take (nat n) (drop (nat (bufp st)) b),
                             len - n, ret + n))
         else Ret (sinfo, p, len, ret))"

definition read_iter ::
    "env \<Rightarrow> nat \<Rightarrow> stream_info \<times> uchar list \<times> int \<times> int
       \<Rightarrow> stream_info \<times> uchar list \<times> int \<times> int \<Rightarrow> bool" where
  "read_iter e stream x y =
     (case x of (sinfo, p, len, ret) \<Rightarrow>
        len \<noteq> 0 \<and>
        (case read_copy sinfo stream p len ret of
           MemFault \<Rightarrow> False
         | Ret (sinfo1, p1, len1, ret1) \<Rightarrow>
             if len1 \<noteq> 0 \<and> bufp (s sinfo1 ! stream) = buflen (s sinfo1 ! stream)
             then (case fill_buffer e sinfo1 stream of
                     MemFault \<Rightarrow> False
                   | Ret (r, sinfo2) \<Rightarrow>
                       r = 0 \<and> bufp (s sinfo2 ! stream) \<noteq> buflen (s sinfo2 ! stream)
                       \<and> y = (sinfo2, p1, len1, ret1))
             else y = (sinfo1, p1, len1, ret1)))"

subsection \<open>Closing a session\<close>

text \<open>What is left after a close is the return value and the file.\<close>

fun close_out_loop :: "env \<Rightarrow> stream_info \<Rightarrow> nat list \<Rightarrow> (int \<times> stream_info) result" where
  "close_out_loop e sinfo [] = Ret (0, sinfo)"
| "close_out_loop e sinfo (i # is) =
     (if \<not> i < length (s sinfo) then MemFault
      else if buflen (s sinfo ! i) \<noteq> 0
      then (case flush_buffer e sinfo i of
              MemFault \<Rightarrow> MemFault
            | Ret (r, sinfo1) \<Rightarrow>
                if r \<noteq> 0 then Ret (-1, sinfo1)
                else close_out_loop e sinfo1 is)
      else close_out_loop e sinfo is)"

definition close_stream_out :: "env \<Rightarrow> stream_info \<Rightarrow> (int \<times> ofile) result" where
  "close_stream_out e sinfo =
     (case close_out_loop e sinfo [0..<nat (num_streams sinfo)] of
        MemFault \<Rightarrow> MemFault
      | Ret (r, sinfo1) \<Rightarrow> Ret (r, fd sinfo1))"

definition close_stream_in :: "stream_info \<Rightarrow> int \<times> ofile" where
  "close_stream_in sinfo =
     (let target = initial_pos sinfo + uint (total_read sinfo);
          (r, f') = sys_lseek_set (fd sinfo) target
      in if r \<noteq> target then (-1, f') else (0, f'))"

subsection \<open>The wire format, in the spec's words\<close>

text \<open>
  The spec's wire format of a \<open>u32\<close>: four bytes, least significant first (the low
  16-bit half first, each half low byte first).
\<close>

definition le_bytes :: "u32 \<Rightarrow> uchar list" where
  "le_bytes v = [ucast v, ucast (drop_bit 8 v), ucast (drop_bit 16 v), ucast (drop_bit 24 v)]"

subsection \<open>The chunk header on disk\<close>

text \<open>
  The 13 bytes of a chunk header, as the four writes of \<^verbatim>\<open>flush_buffer\<close> and
  \<^verbatim>\<open>open_stream_out\<close> emit them, and the file after \<open>m\<close> initial placeholder
  headers have been written at the offset (nothing changes on a descriptor that is not
  writable).
\<close>

definition hdr_bytes :: "uchar \<Rightarrow> u32 \<Rightarrow> u32 \<Rightarrow> u32 \<Rightarrow> uchar list" where
  "hdr_bytes c_type c_len u_len next_head =
     c_type # u32_bytes c_len @ u32_bytes u_len @ u32_bytes next_head"

definition put_headers :: "ofile \<Rightarrow> nat \<Rightarrow> ofile" where
  "put_headers f m =
     (if fwritable f
      then f\<lparr>fdata := overwrite (fdata f) (fpos f) (concat (replicate m (hdr_bytes 3 0 0 0))),
             fpos := fpos f + 13 * m\<rparr>
      else f)"

text \<open>A descriptor that is not open for writing, on an empty file.\<close>

definition ro_file :: ofile where
  "ro_file = \<lparr>fdata = [], fpos = 0, fwritable = False\<rparr>"

subsection \<open>The errors of a fill\<close>

text \<open>
  The bytes of the file at the chunk header \<^verbatim>\<open>fill_buffer\<close> seeks to, and the ways in
  which a fill can fail, each stated on the bytes found there:
  the seek fails (the target \<open>last_head + initial_pos\<close> is negative; at the target -1
  \<^verbatim>\<open>seekto\<close> compares the -1 that \<^verbatim>\<open>lseek\<close> returns with the target and reports
  success, so the failure is seen from -2 down);
  fewer than 13 bytes are left for the header;
  the allocation of \<open>u_len\<close> bytes fails;
  the payload is short (\<open>c_len\<close> is negative as an \<^verbatim>\<open>int\<close>, or fewer than \<open>c_len\<close>
  bytes are left, and what is left fits the block of \<open>u_len\<close> bytes);
  the payload is complete and fits, the chunk is not stored raw, and the codec rejects
  the payload, or returns a block whose length is not \<open>u_len\<close>.
\<close>

definition chunk_at :: "stream_info \<Rightarrow> nat \<Rightarrow> uchar list" where
  "chunk_at sinfo stream =
     drop (nat (uint (last_head (s sinfo ! stream)) + initial_pos sinfo)) (fdata (fd sinfo))"

definition fill_error :: "env \<Rightarrow> stream_info \<Rightarrow> nat \<Rightarrow> bool" where
  "fill_error e sinfo stream =
     (uint (last_head (s sinfo ! stream)) + initial_pos sinfo < -1
      \<or> 0 \<le> initial_pos sinfo \<and>
        (length (chunk_at sinfo stream) < 13
         \<or> (\<exists>c_type c_len u_len nx rest.
               chunk_at sinfo stream = hdr_bytes c_type c_len u_len nx @ rest \<and>
               (\<not> malloc_ok e (unat u_len)
                \<or> malloc_ok e (unat u_len) \<and>
                  (sint c_len < 0 \<or> length rest < unat c_len \<and> length rest \<le> unat u_len)
                \<or> malloc_ok e (unat u_len) \<and> 0 \<le> sint c_len \<and> unat c_len \<le> length rest
                  \<and> unat c_len \<le> unat u_len \<and> uint c_type \<noteq> CTYPE_NONE \<and>
                  (case BZ2_bzBuffToBuffDecompress e (unat u_len) (take (unat c_len) rest) of
                     None \<Rightarrow> True
                   | Some out \<Rightarrow> length out \<noteq> unat u_len)))))"

subsection \<open>A small platform for running the definitions\<close>

text \<open>
  A stand-in for the platform, used where a statement is evaluated on concrete inputs:
  every allocation succeeds, fresh memory is zero, and the codec is a run-length code
  for blocks of one repeated byte (shorter than 256), failing on every other input.
\<close>

definition toy_compress :: "uchar list \<Rightarrow> int \<Rightarrow> int \<Rightarrow> uchar list option" where
  "toy_compress src blockSize100k workFactor =
     (if src \<noteq> [] \<and> length src < 256 \<and> src = replicate (length src) (hd src)
      then Some [of_nat (length src), hd src] else None)"

definition toy_decompress :: "uchar list \<Rightarrow> uchar list option" where
  "toy_decompress c = (case c of [n, b] \<Rightarrow> Some (replicate (unat n) b) | _ \<Rightarrow> None)"

definition toy_env :: env where
  "toy_env = \<lparr>malloc_ok = (\<lambda>n. True), junk = (\<lambda>n i. 0),
              bz_compress = toy_compress, bz_decompress = toy_decompress\<rparr>"

text \<open>
  A write-session of one stream at level 1, as \<^verbatim>\<open>open_stream_out\<close> and a write of
  three bytes \<open>A\<close> leave it, but for the capacity of the buffer (3 instead of
  \<open>bufsize\<close>).
\<close>

definition demo_out :: stream_info where
  "demo_out =
     \<lparr>s = [\<lparr>last_head = 9, buf = Some [65, 65, 65], buflen = 3, bufp = 0, bzip_level = 1\<rparr>],
      num_streams = 1,
      fd = \<lparr>fdata = [3, 0, 0, 0, 0, 0, 0, 0, 0, 0, 0, 0, 0], fpos = 13, fwritable = True\<rparr>,
      bufsize = 102400, cur_pos = 13, initial_pos = 0, total_read = 0\<rparr>"

text \<open>The same session after its buffer has been flushed.\<close>

definition demo_flushed :: stream_info where
  "demo_flushed =
     \<lparr>s = [\<lparr>last_head = 22, buf = Some (fresh toy_env 102400), buflen = 0, bufp = 0,
             bzip_level = 1\<rparr>],
      num_streams = 1,
      fd = \<lparr>fdata = [3, 0, 0, 0, 0, 0, 0, 0, 0, 13, 0, 0, 0,
                      4, 2, 0, 0, 0, 3, 0, 0, 0, 0, 0, 0, 0, 3, 65],
            fpos = 28, fwritable = True\<rparr>,
      bufsize = 102400, cur_pos = 28, initial_pos = 0, total_read = 0\<rparr>"

subsection \<open>Input files for the reader\<close>

text \<open>
  Read-only files holding a stream set of one stream whose only chunk is the byte
  \<open>A\<close>: with one extra leading header \<open>(3, 0, 0, 0)\<close>, with two of them, and with
  no extra header but the tag 4 in the initial header.
\<close>

definition two_sentinels :: ofile where
  "two_sentinels =
     \<lparr>fdata = [3, 0, 0, 0, 0, 0, 0, 0, 0, 0, 0, 0, 0,
               3, 0, 0, 0, 0, 0, 0, 0, 0, 0, 0, 0, 0,
               3, 0, 0, 0, 0, 0, 0, 0, 0, 13, 0, 0, 0,
               3, 1, 0, 0, 0, 1, 0, 0, 0, 0, 0, 0, 0, 65],
      fpos = 0, fwritable = False\<rparr>"

definition one_sentinel :: ofile where
  "one_sentinel =
     \<lparr>fdata = [3, 0, 0, 0, 0, 0, 0, 0, 0, 0, 0, 0, 0,
               3, 0, 0, 0, 0, 0, 0, 0, 0, 13, 0, 0, 0,
               3, 1, 0, 0, 0, 1, 0, 0, 0, 0, 0, 0, 0, 65],
      fpos = 0, fwritable = False\<rparr>"

definition bad_tag :: ofile where
  "bad_tag =
     \<lparr>fdata = [4, 0, 0, 0, 0, 0, 0, 0, 0, 13, 0, 0, 0,
               3, 1, 0, 0, 0, 1, 0, 0, 0, 0, 0, 0, 0, 65],
      fpos = 0, fwritable = False\<rparr>"

text \<open>
  How often \<^verbatim>\<open>open_stream_in\<close> applied its workaround: \<open>initial_pos\<close> starts as the
  file offset at the call, each application adds 13 to it, and nothing else changes it.
\<close>

definition workaround_count :: "ofile \<Rightarrow> stream_info \<Rightarrow> int" where
  "workaround_count f sinfo = (initial_pos sinfo - sys_lseek_cur f) div 13"

text \<open>
  A file whose only chunk declares \<open>c_len = 4\<close> and \<open>u_len = 1\<close>, and the
  read-session \<^verbatim>\<open>open_stream_in\<close> returns for it.
\<close>

definition overflow_file :: ofile where
  "overflow_file =
     \<lparr>fdata = [3, 0, 0, 0, 0, 0, 0, 0, 0, 13, 0, 0, 0,
               3, 4, 0, 0, 0, 1, 0, 0, 0, 0, 0, 0, 0, 65, 66, 67, 68],
      fpos = 0, fwritable = False\<rparr>"

definition overflow_in :: stream_info where
  "overflow_in =
     \<lparr>s = [\<lparr>last_head = 13, buf = None, buflen = 0, bufp = 0, bzip_level = 0\<rparr>],
      num_streams = 1, fd = overflow_file\<lparr>fpos := 13\<rparr>,
      bufsize = 0, cur_pos = 0, initial_pos = 0, total_read = 13\<rparr>"

text \<open>
  Read-sessions on the file with one extra leading header: as \<^verbatim>\<open>open_stream_in\<close>
  returns it, and after a read has met the end of the stream.
\<close>

definition one_sentinel_in :: stream_info where
  "one_sentinel_in =
     \<lparr>s = [\<lparr>last_head = 13, buf = None, buflen = 0, bufp = 0, bzip_level = 0\<rparr>],
      num_streams = 1, fd = one_sentinel\<lparr>fpos := 26\<rparr>,
      bufsize = 0, cur_pos = 0, initial_pos = 13, total_read = 13\<rparr>"

definition one_sentinel_eos :: stream_info where
  "one_sentinel_eos =
     \<lparr>s = [\<lparr>last_head = 13, buf = Some [], buflen = 0, bufp = 0, bzip_level = 0\<rparr>],
      num_streams = 1, fd = one_sentinel\<lparr>fpos := 26\<rparr>,
      bufsize = 0, cur_pos = 0, initial_pos = 13, total_read = 40\<rparr>"

text \<open>
  A file of one stream whose first chunk holds the two bytes \<open>AB\<close> raw and whose second
  chunk is tagged as compressed with a payload the codec of the small platform rejects;
  and the read-session on it as \<^verbatim>\<open>open_stream_in\<close> returns it, after the first fill,
  after the copy of the two bytes, and after the fill of the second chunk has failed.
\<close>

definition bad_chunk :: ofile where
  "bad_chunk =
     \<lparr>fdata = [3, 0, 0, 0, 0, 0, 0, 0, 0, 13, 0, 0, 0,
               3, 2, 0, 0, 0, 2, 0, 0, 0, 28, 0, 0, 0, 65, 66,
               4, 1, 0, 0, 0, 2, 0, 0, 0, 0, 0, 0, 0, 7],
      fpos = 0, fwritable = False\<rparr>"

definition bad_chunk_in :: stream_info where
  "bad_chunk_in =
     \<lparr>s = [\<lparr>last_head = 13, buf = None, buflen = 0, bufp = 0, bzip_level = 0\<rparr>],
      num_streams = 1, fd = bad_chunk\<lparr>fpos := 13\<rparr>,
      bufsize = 0, cur_pos = 0, initial_pos = 0, total_read = 13\<rparr>"

definition bad_chunk_filled :: stream_info where
  "bad_chunk_filled =
     \<lparr>s = [\<lparr>last_head = 28, buf = Some [65, 66], buflen = 2, bufp = 0, bzip_level = 0\<rparr>],
      num_streams = 1, fd = bad_chunk\<lparr>fpos := 28\<rparr>,
      bufsize = 0, cur_pos = 0, initial_pos = 0, total_read = 28\<rparr>"

definition bad_chunk_copied :: stream_info where
  "bad_chunk_copied =
     \<lparr>s = [\<lparr>last_head = 28, buf = Some [65, 66], buflen = 2, bufp = 2, bzip_level = 0\<rparr>],
      num_streams = 1, fd = bad_chunk\<lparr>fpos := 28\<rparr>,
      bufsize = 0, cur_pos = 0, initial_pos = 0, total_read = 28\<rparr>"

definition bad_chunk_failed :: stream_info where
  "bad_chunk_failed =
     \<lparr>s = [\<lparr>last_head = 0, buf = Some [0, 0], buflen = 2, bufp = 0, bzip_level = 0\<rparr>],
      num_streams = 1, fd = bad_chunk\<lparr>fpos := 42\<rparr>,
      bufsize = 0, cur_pos = 0, initial_pos = 0, total_read = 42\<rparr>"

text \<open>
  The three ways in which the loop of \<^verbatim>\<open>read_stream\<close> returns, entered with
  \<open>ret\<close> bytes copied to \<open>p\<close> and \<open>len\<close> bytes still asked for: everything was
  copied; a fill returned 0 and left the buffer empty; a fill returned nonzero.
\<close>

definition read_outcome ::
    "env \<Rightarrow> nat \<Rightarrow> uchar list \<Rightarrow> int \<Rightarrow> int \<Rightarrow> int \<Rightarrow> uchar list \<Rightarrow> stream_info \<Rightarrow> bool" where
  "read_outcome e stream p len ret r out sinfo' =
     (r = ret + len \<and> (\<exists>d. out = p @ d \<and> int (length d) = len)
      \<or> ret \<le> r \<and> r < ret + len \<and> (\<exists>d. out = p @ d \<and> int (length d) = r - ret)
          \<and> (\<exists>sinfo1. fill_buffer e sinfo1 stream = Ret (0, sinfo'))
          \<and> bufp (s sinfo' ! stream) = buflen (s sinfo' ! stream)
      \<or> r = -1 \<and> (\<exists>d. out = p @ d)
          \<and> (\<exists>sinfo1 r1. fill_buffer e sinfo1 stream = Ret (r1, sinfo') \<and> r1 \<noteq> 0))"

section \<open>Properties\<close>

subsection \<open>Files\<close>

lemma length_overwrite:
  "length (overwrite d pos bs) = (if bs = [] then length d else max (length d) (pos + length bs))"
  by (auto simp: overwrite_def)

lemma mask_8: "(0xFF :: 'a::len word) = mask 8"
  by (simp add: mask_eq_decr_exp)

lemma mask_16: "(0xFFFF :: 'a::len word) = mask 16"
  by (simp add: mask_eq_decr_exp)

lemma u32_bytes_le: "u32_bytes v = le_bytes v"
  unfolding u32_bytes_def u16_bytes_def le_bytes_def mask_8 mask_16
  by (simp, intro conjI; (rule bit_word_eqI, auto simp: bit_simps))

lemma overwrite_overwrite:
  "overwrite (overwrite d p xs) (p + length xs) ys = overwrite d p (xs @ ys)"
  by (auto simp: overwrite_def min_def ac_simps)

lemma write_buf_eq:
  "write_buf f p = (if fwritable f then (0, f\<lparr>fdata := overwrite (fdata f) (fpos f) p, fpos := fpos f + length p\<rparr>) else (-1, f))"
  by (simp add: write_buf_def sys_write_def)

lemma write_u32_eq:
  "write_u32 f v = (if fwritable f then (0, f\<lparr>fdata := overwrite (fdata f) (fpos f) (u32_bytes v), fpos := fpos f + 4\<rparr>) else (-1, f))"
  by (simp add: write_u32_def write_u16_def write_buf_eq u32_bytes_def overwrite_overwrite[where xs="u16_bytes x" for x, simplified u16_bytes_def, simplified] u16_bytes_def)

lemma read_buf_eq:
  assumes "0 \<le> len" "len < 2 ^ 63"
  shows "read_buf f len =
     (let bs = take (nat len) (drop (fpos f) (fdata f))
      in (if length bs = nat len then 0 else -1, bs, f\<lparr>fpos := fpos f + length bs\<rparr>))"
proof -
  from assms have "len mod 2 ^ 64 = len" by simp
  moreover from assms have "\<not> (2 ^ 63 :: nat) \<le> nat len"
    by (simp add: nat_less_iff not_le)
  ultimately show ?thesis
    using assms(1) unfolding read_buf_def sys_read_def Let_def by (simp add: nat_eq_iff)
qed

lemma read_u8_at:
  assumes "drop (fpos f) (fdata f) = c # rest"
  shows "read_u8 f = (Some c, f\<lparr>fpos := fpos f + 1\<rparr>)"
  using assms unfolding read_u8_def by (simp add: read_buf_eq)

lemma read_u8_eof:
  assumes "length (fdata f) \<le> fpos f"
  shows "fst (read_u8 f) = None"
  using assms unfolding read_u8_def by (simp add: read_buf_eq)

lemma read_u16_at:
  assumes "drop (fpos f) (fdata f) = u16_bytes v @ rest"
  shows "read_u16 f = (Some v, f\<lparr>fpos := fpos f + 2\<rparr>)"
proof -
  have "push_bit 8 (ucast (ucast (drop_bit 8 v AND mask 8) :: uchar)) OR ucast (ucast (v AND mask 8) :: uchar) = v"
    by (rule bit_word_eqI) (auto simp: bit_simps)
  then show ?thesis
    using assms unfolding read_u16_def by (simp add: read_buf_eq u16_bytes_def mask_8)
qed

lemma read_u32_at:
  assumes "drop (fpos f) (fdata f) = u32_bytes v @ rest"
  shows "read_u32 f = (Some v, f\<lparr>fpos := fpos f + 4\<rparr>)"
proof -
  let ?lo = "ucast (v AND 0xFFFF) :: u16" and ?hi = "ucast (drop_bit 16 v) :: u16"
  have 1: "read_u16 f = (Some ?lo, f\<lparr>fpos := fpos f + 2\<rparr>)"
    using assms by (intro read_u16_at[where rest="u16_bytes ?hi @ rest"]) (simp add: u32_bytes_def)
  have "drop (fpos f + 2) (fdata f) = drop 2 (drop (fpos f) (fdata f))"
    by (simp add: add.commute)
  also have "\<dots> = u16_bytes ?hi @ rest"
    using assms by (simp add: u32_bytes_def u16_bytes_def)
  finally have 2: "read_u16 (f\<lparr>fpos := fpos f + 2\<rparr>) = (Some ?hi, f\<lparr>fpos := fpos f + 4\<rparr>)"
    using read_u16_at[of "f\<lparr>fpos := fpos f + 2\<rparr>" ?hi rest] by simp
  have "push_bit 16 (ucast ?hi) OR ucast ?lo = v"
    unfolding mask_16 by (rule bit_word_eqI) (auto simp: bit_simps)
  with 1 2 show ?thesis unfolding read_u32_def by simp
qed

lemma read_u32_eof:
  assumes "length (fdata f) < fpos f + 4"
  shows "fst (read_u32 f) = None"
  using assms unfolding read_u32_def read_u16_def
  by (auto simp: read_buf_eq Let_def split: prod.splits option.splits if_splits list.splits)

subsection \<open>Conversions, seeking and blocks\<close>

lemma seekto_eq:
  "seekto sinfo pos =
     (if uint pos + initial_pos sinfo < 0
      then (if uint pos + initial_pos sinfo = -1 then 0 else -1, sinfo)
      else (0, sinfo\<lparr>fd := (fd sinfo)\<lparr>fpos := nat (uint pos + initial_pos sinfo)\<rparr>\<rparr>))"
  by (simp add: seekto_def sys_lseek_set_def)

lemma seekto_frame:
  "seekto sinfo pos = (r, sinfo') \<Longrightarrow>
     s sinfo' = s sinfo \<and> cur_pos sinfo' = cur_pos sinfo \<and> bufsize sinfo' = bufsize sinfo
     \<and> initial_pos sinfo' = initial_pos sinfo \<and> total_read sinfo' = total_read sinfo
     \<and> num_streams sinfo' = num_streams sinfo \<and> fdata (fd sinfo') = fdata (fd sinfo)
     \<and> fwritable (fd sinfo') = fwritable (fd sinfo)"
  by (auto simp: seekto_eq split: if_splits)

lemma compress_buf_frame:
  "compress_buf e st ct cl = Ret (st', ct', cl') \<Longrightarrow>
     last_head st' = last_head st \<and> buflen st' = buflen st \<and> bufp st' = bufp st
     \<and> bzip_level st' = bzip_level st"
  by (auto simp: compress_buf_def Let_def split: if_splits option.splits)

lemma uint_of_int_u32: "0 \<le> x \<Longrightarrow> x < 2 ^ 32 \<Longrightarrow> uint (of_int x :: u32) = x"
  by (simp add: uint_word_of_int)

lemma unat_of_int_u32: "0 \<le> x \<Longrightarrow> x < 2 ^ 32 \<Longrightarrow> unat (of_int x :: u32) = nat x"
  by (subst unat_eq_nat_uint) (simp only: uint_of_int_u32)

lemma sint_of_int_u32: "0 \<le> x \<Longrightarrow> x < 2 ^ 31 \<Longrightarrow> sint (of_int x :: u32) = x"
  by (simp add: signed_of_int signed_take_bit_int_eq_self)

lemma unat_of_nat_u32: "n < 2 ^ 32 \<Longrightarrow> unat (of_nat n :: u32) = n"
  by (simp add: unat_of_nat)

lemma uint_of_nat_u32: "n < 2 ^ 32 \<Longrightarrow> uint (of_nat n :: u32) = int n"
  by (simp add: uint_nat unat_of_nat)

lemma sint_of_nat_u32: "n < 2 ^ 31 \<Longrightarrow> sint (of_nat n :: u32) = int n"
  using sint_of_int_u32[of "int n"] by simp


lemma compress_buf_cases:
  assumes b: "buf st = Some b" and pos: "0 < buflen st" and cap: "nat (buflen st) \<le> length b"
    and int: "buflen st < 2 ^ 31"
  shows "compress_buf e st c_type c_len =
     (if bzip_level st = 0 then Ret (st, c_type, c_len)
      else case malloc e (nat (buflen st - 1)) of
             None \<Rightarrow> Ret (st, c_type, c_len)
           | Some c_buf \<Rightarrow>
               (case BZ2_bzBuffToBuffCompress e (nat (buflen st - 1)) (take (nat (buflen st)) b)
                       (bzip_level st) (bzip_level st * 10) of
                  None \<Rightarrow> Ret (st, c_type, c_len)
                | Some out \<Rightarrow> Ret (st\<lparr>buf := Some (store c_buf 0 out)\<rparr>, CTYPE_BZIP2,
                                   of_nat (length out))))"
proof -
  have 1: "unat (of_int (buflen st - 1) :: u32) = nat (buflen st - 1)"
    using pos int by (intro unat_of_int_u32) simp_all
  have 2: "unat (of_int (buflen st) :: u32) = nat (buflen st)"
    using pos int by (intro unat_of_int_u32) simp_all
  show ?thesis
    unfolding compress_buf_def Let_def 1 2 using b cap
    by (simp split: option.splits)
qed

lemma BZ2_compress_length:
  "BZ2_bzBuffToBuffCompress e cap src l w = Some out \<Longrightarrow> length out \<le> cap"
  by (auto simp: BZ2_bzBuffToBuffCompress_def split: option.splits if_splits)

lemma length_malloc: "malloc e n = Some b \<Longrightarrow> length b = n"
  by (auto simp: malloc_def fresh_def split: if_splits)

lemma length_store: "off + length bs \<le> length b \<Longrightarrow> length (store b off bs) = length b"
  by (simp add: store_def)

lemma take_store_0: "take (length bs) (store b 0 bs) = bs"
  by (simp add: store_def)

lemmas eval_defs = toy_env_def toy_compress_def toy_decompress_def
  flush_buffer_def fill_buffer_def seekto_def sys_lseek_set_def sys_lseek_cur_def upd_s_def
  compress_buf_def decompress_buf_def malloc_def BZ2_bzBuffToBuffCompress_def
  BZ2_bzBuffToBuffDecompress_def write_u8_def write_u32_def write_u16_def write_buf_def
  sys_write_def read_u8_def read_u16_def read_u32_def read_buf_def sys_read_def
  u16_bytes_def overwrite_def store_def CTYPE_NONE_def CTYPE_BZIP2_def MIN_c_def Let_def

subsection \<open>Opening a write-session\<close>

lemma write_u8_eq:
  "write_u8 f v = (if fwritable f then (0, f\<lparr>fdata := overwrite (fdata f) (fpos f) [v], fpos := fpos f + 1\<rparr>) else (-1, f))"
  by (simp add: write_u8_def write_buf_eq)

lemma length_u32_bytes [simp]: "length (u32_bytes v) = 4"
  by (simp add: u32_bytes_def u16_bytes_def)

lemma length_hdr_bytes [simp]: "length (hdr_bytes c l u n) = 13"
  by (simp add: hdr_bytes_def)

lemma overwrite_seq:
  "q = p + length xs \<Longrightarrow> overwrite (overwrite d p xs) q ys = overwrite d p (xs @ ys)"
  by (simp add: overwrite_overwrite)

lemma write_header_eq:
  assumes "fwritable f"
  shows "(case write_u8 f c of (r1, f1) \<Rightarrow>
            case write_u32 f1 l of (r2, f2) \<Rightarrow>
            case write_u32 f2 u of (r3, f3) \<Rightarrow>
            case write_u32 f3 n of (r4, f4) \<Rightarrow> ((r1, r2, r3, r4), f4))
         = ((0, 0, 0, 0), f\<lparr>fdata := overwrite (fdata f) (fpos f) (hdr_bytes c l u n),
                               fpos := fpos f + 13\<rparr>)"
proof -
  let ?d = "fdata f" and ?p = "fpos f"
  have 1: "overwrite (overwrite ?d ?p [c]) (Suc ?p) (u32_bytes l) = overwrite ?d ?p (c # u32_bytes l)"
    using overwrite_seq[of "Suc ?p" ?p "[c]" ?d "u32_bytes l"] by simp
  have 2: "overwrite (overwrite ?d ?p (c # u32_bytes l)) (5 + ?p) (u32_bytes u)
           = overwrite ?d ?p (c # u32_bytes l @ u32_bytes u)"
    using overwrite_seq[of "5 + ?p" ?p "c # u32_bytes l" ?d "u32_bytes u"] by simp
  have 3: "overwrite (overwrite ?d ?p (c # u32_bytes l @ u32_bytes u)) (9 + ?p) (u32_bytes n)
           = overwrite ?d ?p (hdr_bytes c l u n)"
    using overwrite_seq[of "9 + ?p" ?p "c # u32_bytes l @ u32_bytes u" ?d "u32_bytes n"]
    by (simp add: hdr_bytes_def)
  show ?thesis
    using assms by (simp add: write_u8_eq write_u32_eq 1 2 3)
qed

lemma write_header_ro:
  assumes "\<not> fwritable f"
  shows "(case write_u8 f c of (r1, f1) \<Rightarrow>
            case write_u32 f1 l of (r2, f2) \<Rightarrow>
            case write_u32 f2 u of (r3, f3) \<Rightarrow>
            case write_u32 f3 n of (r4, f4) \<Rightarrow> ((r1, r2, r3, r4), f4))
         = ((-1, -1, -1, -1), f)"
  using assms by (simp add: write_u8_eq write_u32_eq)

lemma put_headers_0 [simp]: "put_headers f 0 = f"
  by (simp add: put_headers_def overwrite_def)

lemma put_headers_Suc:
  "put_headers (put_headers f (Suc 0)) m = put_headers f (Suc m)"
  by (simp add: put_headers_def overwrite_seq)

lemma wih_step:
  "write_initial_headers sinfo (i # is) =
     write_initial_headers
       ((upd_s sinfo i (\<lambda>st. st\<lparr>last_head := cur_pos sinfo + 9\<rparr>))
          \<lparr>fd := put_headers (fd sinfo) (Suc 0), cur_pos := cur_pos sinfo + 13\<rparr>) is"
proof (cases "fwritable (fd sinfo)")
  case True
  from write_header_eq[OF this, where c="of_int CTYPE_NONE" and l=0 and u=0 and n=0]
  show ?thesis using True
    by (simp add: put_headers_def upd_s_def CTYPE_NONE_def split: prod.splits)
next
  case False
  from write_header_ro[OF this, where c="of_int CTYPE_NONE" and l=0 and u=0 and n=0]
  show ?thesis using False
    by (simp add: put_headers_def upd_s_def split: prod.splits)
qed

lemma wih_fields:
  "fd (write_initial_headers sinfo is) = put_headers (fd sinfo) (length is)
   \<and> cur_pos (write_initial_headers sinfo is) = cur_pos sinfo + 13 * of_nat (length is)
   \<and> length (s (write_initial_headers sinfo is)) = length (s sinfo)
   \<and> bufsize (write_initial_headers sinfo is) = bufsize sinfo
   \<and> initial_pos (write_initial_headers sinfo is) = initial_pos sinfo
   \<and> num_streams (write_initial_headers sinfo is) = num_streams sinfo
   \<and> total_read (write_initial_headers sinfo is) = total_read sinfo"
proof (induction "is" arbitrary: sinfo)
  case Nil
  then show ?case by simp
next
  case (Cons i "is")
  show ?case
    unfolding wih_step
    by (simp add: Cons.IH put_headers_Suc upd_s_def algebra_simps)
qed

lemma wih_streams:
  assumes "j < length (s sinfo)"
  shows "s (write_initial_headers sinfo [k..<n]) ! j =
     (if k \<le> j \<and> j < n
      then (s sinfo ! j)\<lparr>last_head := cur_pos sinfo + 13 * of_nat (j - k) + 9\<rparr>
      else s sinfo ! j)"
  using assms
proof (induction "n - k" arbitrary: k sinfo)
  case 0
  then show ?case by auto
next
  case (Suc m)
  then have kn: "k < n" and m: "m = n - Suc k" by linarith+
  let ?si = "(upd_s sinfo k (\<lambda>st. st\<lparr>last_head := cur_pos sinfo + 9\<rparr>))
               \<lparr>fd := put_headers (fd sinfo) (Suc 0), cur_pos := cur_pos sinfo + 13\<rparr>"
  have j': "j < length (s ?si)" using Suc.prems by (simp add: upd_s_def)
  have "s (write_initial_headers sinfo [k..<n]) ! j
        = s (write_initial_headers ?si [Suc k..<n]) ! j"
    using kn by (simp add: upt_conv_Cons wih_step del: write_initial_headers.simps)
  also have "\<dots> = (if Suc k \<le> j \<and> j < n
      then (s ?si ! j)\<lparr>last_head := cur_pos ?si + 13 * of_nat (j - Suc k) + 9\<rparr>
      else s ?si ! j)"
    by (rule Suc.hyps(1)[OF m j'])
  also have "\<dots> = (if k \<le> j \<and> j < n
      then (s sinfo ! j)\<lparr>last_head := cur_pos sinfo + 13 * of_nat (j - k) + 9\<rparr>
      else s sinfo ! j)"
  proof (cases "j = k")
    case True
    then show ?thesis using kn Suc.prems by (simp add: upd_s_def)
  next
    case False
    have "k < j \<Longrightarrow> (of_nat (j - k) :: u32) = of_nat (j - Suc k) + 1"
      by (metis Suc_diff_Suc of_nat_Suc add.commute)
    then show ?thesis using False Suc.prems
      by (auto simp: upd_s_def algebra_simps)
  qed
  finally show ?case .
qed

lemma alloc_bufs_upt:
  assumes ok: "malloc_ok e (unat (bufsize sinfo))" and n: "n \<le> length (s sinfo)"
  shows "alloc_bufs e sinfo l [k..<n] =
     Some (sinfo\<lparr>s := map (\<lambda>j. if k \<le> j \<and> j < n
                               then (s sinfo ! j)\<lparr>buf := Some (fresh e (unat (bufsize sinfo))),
                                                   bzip_level := l\<rparr>
                               else s sinfo ! j) [0..<length (s sinfo)]\<rparr>)"
  using assms
proof (induction "n - k" arbitrary: k sinfo)
  case 0
  then have e: "[k..<n] = []" by simp
  have "map (\<lambda>j. if k \<le> j \<and> j < n
                 then (s sinfo ! j)\<lparr>buf := Some (fresh e (unat (bufsize sinfo))),
                                     bzip_level := l\<rparr>
                 else s sinfo ! j) [0..<length (s sinfo)] = s sinfo"
    using 0 by (auto intro!: nth_equalityI)
  then show ?case unfolding e by simp
next
  case (Suc m)
  then have kn: "k < n" and m: "m = n - Suc k" by linarith+
  let ?g = "\<lambda>st. st\<lparr>buf := Some (fresh e (unat (bufsize sinfo))), bzip_level := l\<rparr>"
  let ?si = "upd_s sinfo k ?g"
  have ok': "malloc_ok e (unat (bufsize ?si))" and n': "n \<le> length (s ?si)"
    using Suc.prems by (simp_all add: upd_s_def)
  have "alloc_bufs e sinfo l [k..<n] = alloc_bufs e ?si l [Suc k..<n]"
    using kn Suc.prems(1) by (simp add: upt_conv_Cons malloc_def)
  also have "\<dots> = Some (?si\<lparr>s := map (\<lambda>j. if Suc k \<le> j \<and> j < n
                               then (s ?si ! j)\<lparr>buf := Some (fresh e (unat (bufsize ?si))),
                                                 bzip_level := l\<rparr>
                               else s ?si ! j) [0..<length (s ?si)]\<rparr>)"
    by (rule Suc.hyps(1)[OF m ok' n'])
  also have "\<dots> = Some (sinfo\<lparr>s := map (\<lambda>j. if k \<le> j \<and> j < n
                               then ?g (s sinfo ! j)
                               else s sinfo ! j) [0..<length (s sinfo)]\<rparr>)"
    using kn Suc.prems(2) by (auto simp: upd_s_def nth_list_update intro!: nth_equalityI)
  finally show ?case .
qed

lemma open_stream_out_eq:
  assumes n: "0 \<le> n" and m1: "malloc_ok e sizeof_stream_info"
    and m2: "malloc_ok e (sizeof_stream * nat n)"
    and m3: "malloc_ok e (unat bs)"
    and bs: "bs = (if l = 0 then 100 * 1024 else of_int (100 * 1024 * l))"
  shows "open_stream_out e f n l =
     Some \<lparr>s = map (\<lambda>j. \<lparr>last_head = 13 * of_nat j + 9, buf = Some (fresh e (unat bs)),
                          buflen = 0, bufp = 0, bzip_level = l\<rparr>) [0..<nat n],
           num_streams = n, fd = put_headers f (nat n), bufsize = bs,
           cur_pos = 13 * of_nat (nat n), initial_pos = int (fpos f), total_read = 0\<rparr>"
proof -
  let ?si0 = "\<lparr>s = replicate (nat n) zero_stream, num_streams = n, fd = f, bufsize = bs,
               cur_pos = 0, initial_pos = int (fpos f), total_read = 0\<rparr>"
  let ?g = "\<lambda>st. st\<lparr>buf := Some (fresh e (unat bs)), bzip_level := l\<rparr>"
  let ?si1 = "?si0\<lparr>s := replicate (nat n) (?g zero_stream)\<rparr>"
  have a: "alloc_bufs e ?si0 l [0..<nat n] = Some ?si1"
  proof -
    have "alloc_bufs e ?si0 l [0..<nat n] =
       Some (?si0\<lparr>s := map (\<lambda>j. if 0 \<le> j \<and> j < nat n
                               then (s ?si0 ! j)\<lparr>buf := Some (fresh e (unat (bufsize ?si0))),
                                                   bzip_level := l\<rparr>
                               else s ?si0 ! j) [0..<length (s ?si0)]\<rparr>)"
      by (rule alloc_bufs_upt) (use m3 in simp_all)
    also have "\<dots> = Some ?si1"
      by (auto intro!: nth_equalityI)
    finally show ?thesis .
  qed
  let ?r = "write_initial_headers ?si1 [0..<nat n]"
  have "s ?r = map (\<lambda>j. \<lparr>last_head = 13 * of_nat j + 9, buf = Some (fresh e (unat bs)),
                          buflen = 0, bufp = 0, bzip_level = l\<rparr>) [0..<nat n]"
  proof (rule nth_equalityI)
    show "length (s ?r) = length (map (\<lambda>j. \<lparr>last_head = 13 * of_nat j + 9,
            buf = Some (fresh e (unat bs)), buflen = 0, bufp = 0, bzip_level = l\<rparr>) [0..<nat n])"
      by (simp add: wih_fields)
  next
    fix j assume "j < length (s ?r)"
    then have j: "j < nat n" by (simp add: wih_fields)
    then have "j < length (s ?si1)" by simp
    from wih_streams[OF this, of 0 "nat n"] j
    show "s ?r ! j = map (\<lambda>j. \<lparr>last_head = 13 * of_nat j + 9,
            buf = Some (fresh e (unat bs)), buflen = 0, bufp = 0, bzip_level = l\<rparr>) [0..<nat n] ! j"
      by (simp add: zero_stream_def)
  qed
  moreover have "fd ?r = put_headers f (nat n)" "cur_pos ?r = 13 * of_nat (nat n)"
    "bufsize ?r = bs" "initial_pos ?r = int (fpos f)" "num_streams ?r = n" "total_read ?r = 0"
    by (simp_all add: wih_fields)
  ultimately have r: "?r = \<lparr>s = map (\<lambda>j. \<lparr>last_head = 13 * of_nat j + 9,
                          buf = Some (fresh e (unat bs)),
                          buflen = 0, bufp = 0, bzip_level = l\<rparr>) [0..<nat n],
           num_streams = n, fd = put_headers f (nat n), bufsize = bs,
           cur_pos = 13 * of_nat (nat n), initial_pos = int (fpos f), total_read = 0\<rparr>"
    by (intro stream_info.equality) simp_all
  have "open_stream_out e f n l = Some ?r"
    unfolding open_stream_out_def using n m1 m2 a
    by (simp add: calloc_streams_def sys_lseek_cur_def bs Let_def)
  with r show ?thesis by simp
qed

subsection \<open>Reading headers\<close>

lemma read_buf_ok:
  assumes "read_buf f len = (0, bs, f')"
  shows "0 \<le> len" and "f' = f\<lparr>fpos := fpos f + nat len\<rparr>"
    and "bs = take (nat len) (drop (fpos f) (fdata f))" and "length bs = nat len"
proof -
  let ?bs = "take (nat (len mod 2 ^ 64)) (drop (fpos f) (fdata f))"
  from assms have eq: "int (length ?bs) = len" and bs: "bs = ?bs"
    and f': "f' = f\<lparr>fpos := fpos f + length ?bs\<rparr>"
    by (auto simp: read_buf_def sys_read_def Let_def split: if_splits)
  from eq have len0: "0 \<le> len" by linarith
  from eq have len1: "nat len = length ?bs" by linarith
  have "len mod 2 ^ 64 = len"
  proof -
    have "int (length ?bs) \<le> len mod 2 ^ 64" by simp
    with eq have "len \<le> len mod 2 ^ 64" by simp
    moreover have "len mod 2 ^ 64 \<le> len" using len0 by (simp add: zmod_le_nonneg_dividend)
    ultimately show ?thesis by simp
  qed
  then have bs': "?bs = take (nat len) (drop (fpos f) (fdata f))" by simp
  show "0 \<le> len" by (rule len0)
  show "f' = f\<lparr>fpos := fpos f + nat len\<rparr>" using f' len1 by simp
  show "bs = take (nat len) (drop (fpos f) (fdata f))" using bs bs' by simp
  show "length bs = nat len" using bs len1 by simp
qed

lemma list_len1: "length bs = Suc 0 \<Longrightarrow> \<exists>c. bs = [c]"
  by (cases bs) auto

lemma list_len2: "length bs = 2 \<Longrightarrow> \<exists>p0 p1. bs = [p0, p1]"
  by (cases bs; cases "tl bs") auto

lemma read_u8_Some:
  assumes "read_u8 f = (Some c, f')"
  shows "f' = f\<lparr>fpos := fpos f + 1\<rparr> \<and> take 1 (drop (fpos f) (fdata f)) = [c]"
proof -
  obtain r bs g where rb: "read_buf f 1 = (r, bs, g)" by (cases "read_buf f 1") auto
  with assms have r: "r = 0" and g: "g = f'"
    by (auto simp: read_u8_def split: if_splits)
  note ok = read_buf_ok[OF rb[unfolded r g]]
  from ok(4) have "length bs = Suc 0" by simp
  from list_len1[OF this] obtain c' where c': "bs = [c']" by blast
  with assms rb r have "c' = c" by (simp add: read_u8_def)
  with ok(2,3) c' show ?thesis by simp
qed

lemma u16_bytes_decode:
  "u16_bytes (push_bit 8 (ucast p1) OR ucast p0) = [p0, p1]" for p0 p1 :: uchar
proof -
  have "(ucast ((push_bit 8 (ucast p1) OR ucast p0 :: u16) AND mask 8) :: uchar) = p0"
    by (rule bit_word_eqI) (auto simp: bit_simps dest: bit_imp_le_length)
  moreover have "(ucast (drop_bit 8 (push_bit 8 (ucast p1) OR ucast p0 :: u16) AND mask 8) :: uchar) = p1"
    by (rule bit_word_eqI) (auto simp: bit_simps dest: bit_imp_le_length)
  ultimately show ?thesis by (simp add: u16_bytes_def mask_8)
qed

lemma read_u16_Some:
  assumes "read_u16 f = (Some v, f')"
  shows "f' = f\<lparr>fpos := fpos f + 2\<rparr> \<and> take 2 (drop (fpos f) (fdata f)) = u16_bytes v"
proof -
  obtain r bs g where rb: "read_buf f 2 = (r, bs, g)" by (cases "read_buf f 2") auto
  with assms have r: "r = 0" and g: "g = f'"
    by (auto simp: read_u16_def split: if_splits)
  note ok = read_buf_ok[OF rb[unfolded r g]]
  from ok(4) have "length bs = 2" by simp
  from list_len2[OF this] obtain p0 p1 where c: "bs = [p0, p1]" by blast
  with assms rb r have v: "v = push_bit 8 (ucast p1) OR ucast p0"
    by (simp add: read_u16_def)
  from ok(2,3) c show ?thesis by (simp add: v u16_bytes_decode)
qed

lemma u32_halves:
  "ucast (((push_bit 16 (ucast v2) OR ucast v1) :: u32) AND 0xFFFF) = v1
   \<and> ucast (drop_bit 16 ((push_bit 16 (ucast v2) OR ucast v1) :: u32)) = v2"
  for v1 v2 :: u16
  unfolding mask_16 by (intro conjI; rule bit_word_eqI) (auto simp: bit_simps dest: bit_imp_le_length)

lemma take_add_drop: "take (a + b) xs = take a xs @ take b (drop a xs)"
  by (simp add: take_add)

lemma read_u32_Some:
  assumes "read_u32 f = (Some v, f')"
  shows "f' = f\<lparr>fpos := fpos f + 4\<rparr> \<and> take 4 (drop (fpos f) (fdata f)) = u32_bytes v"
proof -
  from assms obtain v1 f1 v2 where 1: "read_u16 f = (Some v1, f1)"
    and 2: "read_u16 f1 = (Some v2, f')" and v: "v = push_bit 16 (ucast v2) OR ucast v1"
    by (auto simp: read_u32_def split: prod.splits option.splits)
  note a = read_u16_Some[OF 1] and b = read_u16_Some[OF 2]
  from a b have f': "f' = f\<lparr>fpos := fpos f + 4\<rparr>" by simp
  have "take 4 (drop (fpos f) (fdata f))
        = take 2 (drop (fpos f) (fdata f)) @ take 2 (drop 2 (drop (fpos f) (fdata f)))"
    using take_add_drop[of 2 2 "drop (fpos f) (fdata f)"] by simp
  also have "\<dots> = u16_bytes v1 @ u16_bytes v2"
    using a b by (simp add: add.commute)
  finally show ?thesis using f' u32_halves[of v2 v1] by (simp add: u32_bytes_def v)
qed

lemma read_header_Some:
  assumes "read_u8 f = (Some c, f1)" "read_u32 f1 = (Some l, f2)"
    "read_u32 f2 = (Some u, f3)" "read_u32 f3 = (Some n, f4)"
  shows "f4 = f\<lparr>fpos := fpos f + 13\<rparr>"
    and "take 13 (drop (fpos f) (fdata f)) = hdr_bytes c l u n"
proof -
  note a = read_u8_Some[OF assms(1)] and b = read_u32_Some[OF assms(2)]
    and c = read_u32_Some[OF assms(3)] and d = read_u32_Some[OF assms(4)]
  from a b c d show "f4 = f\<lparr>fpos := fpos f + 13\<rparr>" by simp
  let ?r = "drop (fpos f) (fdata f)"
  have 1: "take 1 ?r = [c]" using a by simp
  have 2: "take 4 (drop 1 ?r) = u32_bytes l" using a b by (simp add: add.commute)
  have 3: "take 4 (drop 5 ?r) = u32_bytes u" using a b c by (simp add: add.commute)
  have 4: "take 4 (drop 9 ?r) = u32_bytes n" using a b c d by (simp add: add.commute)
  have "take 13 ?r = take 1 ?r @ take 4 (drop 1 ?r) @ take 4 (drop 5 ?r) @ take 4 (drop 9 ?r)"
    using take_add_drop[of 1 12 ?r] take_add_drop[of 4 8 "drop 1 ?r"]
          take_add_drop[of 4 4 "drop 5 ?r"]
    by simp
  then show "take 13 (drop (fpos f) (fdata f)) = hdr_bytes c l u n"
    using 1 2 3 4 by (simp add: hdr_bytes_def)
qed

lemma read_header_at:
  assumes "drop (fpos f) (fdata f) = hdr_bytes c l u n @ rest"
  shows "read_u8 f = (Some c, f\<lparr>fpos := fpos f + 1\<rparr>)"
    and "read_u32 (f\<lparr>fpos := fpos f + 1\<rparr>) = (Some l, f\<lparr>fpos := fpos f + 5\<rparr>)"
    and "read_u32 (f\<lparr>fpos := fpos f + 5\<rparr>) = (Some u, f\<lparr>fpos := fpos f + 9\<rparr>)"
    and "read_u32 (f\<lparr>fpos := fpos f + 9\<rparr>) = (Some n, f\<lparr>fpos := fpos f + 13\<rparr>)"
proof -
  let ?r = "drop (fpos f) (fdata f)"
  show "read_u8 f = (Some c, f\<lparr>fpos := fpos f + 1\<rparr>)"
    using assms by (intro read_u8_at) (simp add: hdr_bytes_def)
  have "drop (fpos f + 1) (fdata f) = drop 1 ?r" by (simp add: add.commute)
  then have "drop (fpos (f\<lparr>fpos := fpos f + 1\<rparr>)) (fdata (f\<lparr>fpos := fpos f + 1\<rparr>))
             = u32_bytes l @ (u32_bytes u @ u32_bytes n @ rest)"
    using assms by (simp add: hdr_bytes_def)
  from read_u32_at[OF this]
  show "read_u32 (f\<lparr>fpos := fpos f + 1\<rparr>) = (Some l, f\<lparr>fpos := fpos f + 5\<rparr>)" by simp
  have "drop (fpos f + 5) (fdata f) = drop 5 ?r" by (simp add: add.commute)
  then have "drop (fpos (f\<lparr>fpos := fpos f + 5\<rparr>)) (fdata (f\<lparr>fpos := fpos f + 5\<rparr>))
             = u32_bytes u @ (u32_bytes n @ rest)"
    using assms by (simp add: hdr_bytes_def)
  from read_u32_at[OF this]
  show "read_u32 (f\<lparr>fpos := fpos f + 5\<rparr>) = (Some u, f\<lparr>fpos := fpos f + 9\<rparr>)" by simp
  have "drop (fpos f + 9) (fdata f) = drop 9 ?r" by (simp add: add.commute)
  then have "drop (fpos (f\<lparr>fpos := fpos f + 9\<rparr>)) (fdata (f\<lparr>fpos := fpos f + 9\<rparr>))
             = u32_bytes n @ rest"
    using assms by (simp add: hdr_bytes_def)
  from read_u32_at[OF this]
  show "read_u32 (f\<lparr>fpos := fpos f + 9\<rparr>) = (Some n, f\<lparr>fpos := fpos f + 13\<rparr>)" by simp
qed


lemma uint_uchar_3: "uint (c :: uchar) = CTYPE_NONE \<Longrightarrow> c = 3"
  by (simp add: CTYPE_NONE_def word_uint_eq_iff)

lemma nth_upd_same:
  "j < length xs \<Longrightarrow> xs[i := g (xs ! i)] ! j = (if j = i then g (xs ! j) else xs ! j)"
  by (auto simp: nth_list_update)

lemma in_headers_post:
  assumes "in_headers sinfo i n = Some sinfo'" and "n \<le> length (s sinfo)"
  shows "\<exists>k. fd sinfo' = (fd sinfo)\<lparr>fpos := fpos (fd sinfo) + 13 * k + 13 * (n - i)\<rparr>
     \<and> initial_pos sinfo' = initial_pos sinfo + 13 * int k
     \<and> total_read sinfo' = total_read sinfo + 13 * of_nat (n - i)
     \<and> (i \<noteq> 0 \<or> n = 0 \<longrightarrow> k = 0)
     \<and> (\<forall>m<k. take 13 (drop (fpos (fd sinfo) + 13 * m) (fdata (fd sinfo))) = hdr_bytes 3 0 0 0)
     \<and> length (s sinfo') = length (s sinfo)
     \<and> (\<forall>j<length (s sinfo). buf (s sinfo' ! j) = buf (s sinfo ! j)
           \<and> buflen (s sinfo' ! j) = buflen (s sinfo ! j) \<and> bufp (s sinfo' ! j) = bufp (s sinfo ! j)
           \<and> bzip_level (s sinfo' ! j) = bzip_level (s sinfo ! j)
           \<and> (\<not> (i \<le> j \<and> j < n) \<longrightarrow> last_head (s sinfo' ! j) = last_head (s sinfo ! j)))
     \<and> (\<forall>j. i \<le> j \<and> j < n \<longrightarrow>
           take 13 (drop (fpos (fd sinfo) + 13 * k + 13 * (j - i)) (fdata (fd sinfo)))
           = hdr_bytes 3 0 0 (last_head (s sinfo' ! j)))
     \<and> (i = 0 \<and> 0 < n \<longrightarrow> last_head (s sinfo' ! 0) \<noteq> 0)
     \<and> num_streams sinfo' = num_streams sinfo \<and> bufsize sinfo' = bufsize sinfo
     \<and> cur_pos sinfo' = cur_pos sinfo"
  using assms
proof (induction "length (fdata (fd sinfo)) - fpos (fd sinfo)" arbitrary: sinfo i rule: less_induct)
  case less
  let ?p = "fpos (fd sinfo)" and ?d = "fdata (fd sinfo)"
  show ?case
  proof (cases "i < n")
    case False
    then have ni: "n \<le> i" by simp
    from less.prems False have eq: "sinfo' = sinfo"
      by (simp add: in_headers.simps[of sinfo i n])
    have d0: "n - i = 0" using ni by simp
    show ?thesis
      unfolding eq d0
      by (intro exI[of _ 0] conjI allI impI) (use ni in simp_all)
  next
    case True
    from less.prems(1) True obtain c f1 v1 f2 v2 f3 lh f4 where
      rd: "read_u8 (fd sinfo) = (Some c, f1)" "read_u32 f1 = (Some v1, f2)"
          "read_u32 f2 = (Some v2, f3)" "read_u32 f3 = (Some lh, f4)"
      by (simp add: in_headers.simps[of sinfo i n] split: prod.splits option.splits)
    note hdr = read_header_Some[OF rd]
    have avail: "?p + 13 \<le> length ?d"
    proof (rule ccontr)
      assume "\<not> ?p + 13 \<le> length ?d"
      then have "length (take 13 (drop ?p ?d)) < 13" by simp
      with hdr(2) show False by simp
    qed
    define sinfo1 where "sinfo1 = upd_s (sinfo\<lparr>fd := f4\<rparr>) i (\<lambda>st. st\<lparr>last_head := lh\<rparr>)"
    show ?thesis
    proof (cases "uint c = CTYPE_NONE \<and> v1 = 0 \<and> v2 = 0 \<and> lh = 0 \<and> i = 0")
      case sent: True
      define sinfoA where "sinfoA = sinfo1\<lparr>initial_pos := initial_pos sinfo1 + 13\<rparr>"
      have rec: "in_headers sinfoA i n = Some sinfo'"
        using less.prems(1) True rd sent
        by (simp add: in_headers.simps[of sinfo i n] sinfoA_def sinfo1_def Let_def)
      have fdA: "fd sinfoA = (fd sinfo)\<lparr>fpos := ?p + 13\<rparr>"
        by (simp add: sinfoA_def sinfo1_def upd_s_def hdr(1))
      have lt: "length (fdata (fd sinfoA)) - fpos (fd sinfoA) < length ?d - ?p"
        using avail by (simp add: fdA)
      have lenA: "n \<le> length (s sinfoA)"
        using less.prems(2) by (simp add: sinfoA_def sinfo1_def upd_s_def)
      from less.hyps[OF lt rec lenA] obtain k where k:
        "fd sinfo' = (fd sinfoA)\<lparr>fpos := fpos (fd sinfoA) + 13 * k + 13 * (n - i)\<rparr>"
        "initial_pos sinfo' = initial_pos sinfoA + 13 * int k"
        "total_read sinfo' = total_read sinfoA + 13 * of_nat (n - i)"
        "\<forall>m<k. take 13 (drop (fpos (fd sinfoA) + 13 * m) (fdata (fd sinfoA))) = hdr_bytes 3 0 0 0"
        "length (s sinfo') = length (s sinfoA)"
        "\<forall>j<length (s sinfoA). buf (s sinfo' ! j) = buf (s sinfoA ! j)
           \<and> buflen (s sinfo' ! j) = buflen (s sinfoA ! j) \<and> bufp (s sinfo' ! j) = bufp (s sinfoA ! j)
           \<and> bzip_level (s sinfo' ! j) = bzip_level (s sinfoA ! j)
           \<and> (\<not> (i \<le> j \<and> j < n) \<longrightarrow> last_head (s sinfo' ! j) = last_head (s sinfoA ! j))"
        "\<forall>j. i \<le> j \<and> j < n \<longrightarrow>
           take 13 (drop (fpos (fd sinfoA) + 13 * k + 13 * (j - i)) (fdata (fd sinfoA)))
           = hdr_bytes 3 0 0 (last_head (s sinfo' ! j))"
        "i = 0 \<and> 0 < n \<longrightarrow> last_head (s sinfo' ! 0) \<noteq> 0"
        "num_streams sinfo' = num_streams sinfoA" "bufsize sinfo' = bufsize sinfoA"
        "cur_pos sinfo' = cur_pos sinfoA"
        by (elim exE conjE) (rule that, assumption+)
      have c3: "c = 3" using sent uint_uchar_3 by blast
      have h0: "take 13 (drop ?p ?d) = hdr_bytes 3 0 0 0"
        using hdr(2) sent c3 by simp
      have e: "\<forall>m<Suc k. take 13 (drop (?p + 13 * m) ?d) = hdr_bytes 3 0 0 0"
      proof (intro allI impI)
        fix m assume "m < Suc k"
        show "take 13 (drop (?p + 13 * m) ?d) = hdr_bytes 3 0 0 0"
        proof (cases m)
          case 0
          then show ?thesis using h0 by simp
        next
          case (Suc m')
          with \<open>m < Suc k\<close> have "m' < k" by simp
          with k(4) have "take 13 (drop (fpos (fd sinfoA) + 13 * m') (fdata (fd sinfoA))) = hdr_bytes 3 0 0 0"
            by blast
          then show ?thesis by (simp add: fdA Suc algebra_simps)
        qed
      qed
      have g: "\<forall>j<length (s sinfo). buf (s sinfo' ! j) = buf (s sinfo ! j)
           \<and> buflen (s sinfo' ! j) = buflen (s sinfo ! j) \<and> bufp (s sinfo' ! j) = bufp (s sinfo ! j)
           \<and> bzip_level (s sinfo' ! j) = bzip_level (s sinfo ! j)
           \<and> (\<not> (i \<le> j \<and> j < n) \<longrightarrow> last_head (s sinfo' ! j) = last_head (s sinfo ! j))"
        using k(6) sent True
        by (auto simp: sinfoA_def sinfo1_def upd_s_def nth_upd_same)
      have h: "\<forall>j. i \<le> j \<and> j < n \<longrightarrow>
           take 13 (drop (?p + 13 * Suc k + 13 * (j - i)) ?d)
           = hdr_bytes 3 0 0 (last_head (s sinfo' ! j))"
        using k(7) by (simp add: fdA algebra_simps)
      have k1: "fd sinfo' = (fd sinfo)\<lparr>fpos := ?p + 13 * Suc k + 13 * (n - i)\<rparr>"
        using k(1) by (simp add: fdA)
      have k2: "initial_pos sinfo' = initial_pos sinfo + 13 * int (Suc k)"
        using k(2) by (simp add: sinfoA_def sinfo1_def upd_s_def)
      have k3: "total_read sinfo' = total_read sinfo + 13 * of_nat (n - i)"
        using k(3) by (simp add: sinfoA_def sinfo1_def upd_s_def)
      have k5: "length (s sinfo') = length (s sinfo)"
        using k(5) by (simp add: sinfoA_def sinfo1_def upd_s_def)
      have k9: "num_streams sinfo' = num_streams sinfo" "bufsize sinfo' = bufsize sinfo"
          "cur_pos sinfo' = cur_pos sinfo"
        using k(9,10,11) by (simp_all add: sinfoA_def sinfo1_def upd_s_def)
      have kd: "i \<noteq> 0 \<or> n = 0 \<longrightarrow> Suc k = 0"
        using sent True by simp
      show ?thesis
        by (rule exI[of _ "Suc k"]) (intro conjI k1 k2 k3 kd e k5 g h k(8) k9)
    next
      case nosent: False
      define sinfo2 where "sinfo2 = sinfo1\<lparr>total_read := total_read sinfo1 + 13\<rparr>"
      have ok: "uint c = CTYPE_NONE \<and> v1 = 0 \<and> v2 = 0 \<and> in_headers sinfo2 (i + 1) n = Some sinfo'"
        using less.prems(1) True rd nosent
        by (simp add: in_headers.simps[of sinfo i n] sinfo2_def sinfo1_def Let_def
                 split: if_splits)
      then have rec: "in_headers sinfo2 (i + 1) n = Some sinfo'" and c3: "c = 3"
        and v: "v1 = 0" "v2 = 0"
        using uint_uchar_3 by blast+
      have fd2: "fd sinfo2 = (fd sinfo)\<lparr>fpos := ?p + 13\<rparr>"
        by (simp add: sinfo2_def sinfo1_def upd_s_def hdr(1))
      have lt: "length (fdata (fd sinfo2)) - fpos (fd sinfo2) < length ?d - ?p"
        using avail by (simp add: fd2)
      have len2: "n \<le> length (s sinfo2)"
        using less.prems(2) by (simp add: sinfo2_def sinfo1_def upd_s_def)
      from less.hyps[OF lt rec len2] obtain k where k:
        "fd sinfo' = (fd sinfo2)\<lparr>fpos := fpos (fd sinfo2) + 13 * k + 13 * (n - (i + 1))\<rparr>"
        "initial_pos sinfo' = initial_pos sinfo2 + 13 * int k"
        "total_read sinfo' = total_read sinfo2 + 13 * of_nat (n - (i + 1))"
        "i + 1 \<noteq> 0 \<or> n = 0 \<longrightarrow> k = 0"
        "length (s sinfo') = length (s sinfo2)"
        "\<forall>j<length (s sinfo2). buf (s sinfo' ! j) = buf (s sinfo2 ! j)
           \<and> buflen (s sinfo' ! j) = buflen (s sinfo2 ! j) \<and> bufp (s sinfo' ! j) = bufp (s sinfo2 ! j)
           \<and> bzip_level (s sinfo' ! j) = bzip_level (s sinfo2 ! j)
           \<and> (\<not> (i + 1 \<le> j \<and> j < n) \<longrightarrow> last_head (s sinfo' ! j) = last_head (s sinfo2 ! j))"
        "\<forall>j. i + 1 \<le> j \<and> j < n \<longrightarrow>
           take 13 (drop (fpos (fd sinfo2) + 13 * k + 13 * (j - (i + 1))) (fdata (fd sinfo2)))
           = hdr_bytes 3 0 0 (last_head (s sinfo' ! j))"
        "num_streams sinfo' = num_streams sinfo2" "bufsize sinfo' = bufsize sinfo2"
        "cur_pos sinfo' = cur_pos sinfo2"
        by (elim exE conjE) (rule that, assumption+)
      from k(4) have k0: "k = 0" by simp
      have il: "i < length (s sinfo)" using True less.prems(2) by simp
      have si: "last_head (s sinfo' ! i) = lh"
        using k(6) il by (simp add: sinfo2_def sinfo1_def upd_s_def)
      have "n - i = Suc (n - (i + 1))" using True by arith
      then have tr: "(of_nat (n - i) :: u32) = of_nat (n - (i + 1)) + 1"
        by (simp only: of_nat_Suc add.commute)
      have g: "\<forall>j<length (s sinfo). buf (s sinfo' ! j) = buf (s sinfo ! j)
           \<and> buflen (s sinfo' ! j) = buflen (s sinfo ! j) \<and> bufp (s sinfo' ! j) = bufp (s sinfo ! j)
           \<and> bzip_level (s sinfo' ! j) = bzip_level (s sinfo ! j)
           \<and> (\<not> (i \<le> j \<and> j < n) \<longrightarrow> last_head (s sinfo' ! j) = last_head (s sinfo ! j))"
      proof (intro allI impI)
        fix j assume j: "j < length (s sinfo)"
        then have "j < length (s sinfo2)" by (simp add: sinfo2_def sinfo1_def upd_s_def)
        with k(6) have *: "buf (s sinfo' ! j) = buf (s sinfo2 ! j)
           \<and> buflen (s sinfo' ! j) = buflen (s sinfo2 ! j) \<and> bufp (s sinfo' ! j) = bufp (s sinfo2 ! j)
           \<and> bzip_level (s sinfo' ! j) = bzip_level (s sinfo2 ! j)
           \<and> (\<not> (i + 1 \<le> j \<and> j < n) \<longrightarrow> last_head (s sinfo' ! j) = last_head (s sinfo2 ! j))"
          by blast
        have s2: "s sinfo2 ! j = (if j = i then (s sinfo ! j)\<lparr>last_head := lh\<rparr> else s sinfo ! j)"
          using j by (simp add: sinfo2_def sinfo1_def upd_s_def nth_upd_same)
        have "\<not> (i \<le> j \<and> j < n) \<Longrightarrow> j \<noteq> i \<and> \<not> (i + 1 \<le> j \<and> j < n)"
          using True by arith
        with * s2 show "buf (s sinfo' ! j) = buf (s sinfo ! j)
           \<and> buflen (s sinfo' ! j) = buflen (s sinfo ! j) \<and> bufp (s sinfo' ! j) = bufp (s sinfo ! j)
           \<and> bzip_level (s sinfo' ! j) = bzip_level (s sinfo ! j)
           \<and> (\<not> (i \<le> j \<and> j < n) \<longrightarrow> last_head (s sinfo' ! j) = last_head (s sinfo ! j))"
          using True by (cases "j = i") simp_all
      qed
      have h: "\<forall>j. i \<le> j \<and> j < n \<longrightarrow>
           take 13 (drop (?p + 13 * 0 + 13 * (j - i)) ?d)
           = hdr_bytes 3 0 0 (last_head (s sinfo' ! j))"
      proof (intro allI impI)
        fix j assume j: "i \<le> j \<and> j < n"
        show "take 13 (drop (?p + 13 * 0 + 13 * (j - i)) ?d)
              = hdr_bytes 3 0 0 (last_head (s sinfo' ! j))"
        proof (cases "j = i")
          case True
          then show ?thesis using hdr(2) c3 v si by simp
        next
          case False
          with j have j': "i + 1 \<le> j \<and> j < n" by simp
          then have "13 * (j - i) = 13 + 13 * (j - (i + 1))" by arith
          with k(7) j' show ?thesis by (simp add: fd2 k0 algebra_simps)
        qed
      qed
      have i0: "i = 0 \<and> 0 < n \<longrightarrow> last_head (s sinfo' ! 0) \<noteq> 0"
      proof (intro impI)
        assume "i = 0 \<and> 0 < n"
        then have "i = 0" by simp
        with nosent ok have "lh \<noteq> 0" by simp
        with si \<open>i = 0\<close> show "last_head (s sinfo' ! 0) \<noteq> 0" by simp
      qed
      have "13 + 13 * (n - (i + 1)) = 13 * (n - i)" using True by arith
      then have k1: "fd sinfo' = (fd sinfo)\<lparr>fpos := ?p + 13 * 0 + 13 * (n - i)\<rparr>"
        using k(1) by (simp add: fd2 k0 add.assoc)
      have k2: "initial_pos sinfo' = initial_pos sinfo + 13 * int 0"
        using k(2) by (simp add: k0 sinfo2_def sinfo1_def upd_s_def)
      have k3: "total_read sinfo' = total_read sinfo + 13 * of_nat (n - i)"
        unfolding k(3) tr by (simp add: sinfo2_def sinfo1_def upd_s_def algebra_simps)
      have k5: "length (s sinfo') = length (s sinfo)"
        using k(5) by (simp add: sinfo2_def sinfo1_def upd_s_def)
      have k9: "num_streams sinfo' = num_streams sinfo" "bufsize sinfo' = bufsize sinfo"
          "cur_pos sinfo' = cur_pos sinfo"
        using k(8,9,10) by (simp_all add: sinfo2_def sinfo1_def upd_s_def)
      have kd: "i \<noteq> 0 \<or> n = 0 \<longrightarrow> (0::nat) = 0"
        by simp
      have e: "\<forall>m<0::nat. take 13 (drop (?p + 13 * m) ?d) = hdr_bytes 3 0 0 0"
        by simp
      show ?thesis
        by (rule exI[of _ 0]) (intro conjI k1 k2 k3 kd e k5 g h i0 k9)
    qed
  qed
qed

subsection \<open>Opening a read-session\<close>

lemma u32_bytes_inj: "u32_bytes v = u32_bytes w \<Longrightarrow> v = w"
proof -
  assume eq: "u32_bytes v = u32_bytes w"
  let ?f = "\<lparr>fdata = u32_bytes v, fpos = 0, fwritable = False\<rparr>"
  have "read_u32 ?f = (Some v, ?f\<lparr>fpos := fpos ?f + 4\<rparr>)"
    by (rule read_u32_at[where rest="[]"]) simp
  moreover have "read_u32 ?f = (Some w, ?f\<lparr>fpos := fpos ?f + 4\<rparr>)"
    by (rule read_u32_at[where rest="[]"]) (simp add: eq)
  ultimately show "v = w" by simp
qed

lemma hdr_bytes_inj:
  "hdr_bytes c l u n = hdr_bytes c' l' u' n' \<Longrightarrow> c = c' \<and> l = l' \<and> u = u' \<and> n = n'"
  by (auto simp: hdr_bytes_def dest: u32_bytes_inj)

lemma open_stream_in_post:
  assumes "open_stream_in e f n = Some sinfo"
  shows "\<exists>k. fd sinfo = f\<lparr>fpos := fpos f + 13 * k + 13 * nat n\<rparr>
     \<and> initial_pos sinfo = int (fpos f) + 13 * int k
     \<and> total_read sinfo = 13 * of_nat (nat n)
     \<and> (nat n = 0 \<longrightarrow> k = 0)
     \<and> (\<forall>m<k. take 13 (drop (fpos f + 13 * m) (fdata f)) = hdr_bytes 3 0 0 0)
     \<and> length (s sinfo) = nat n
     \<and> (\<forall>j<nat n. buf (s sinfo ! j) = None \<and> buflen (s sinfo ! j) = 0 \<and> bufp (s sinfo ! j) = 0)
     \<and> (\<forall>j<nat n. take 13 (drop (fpos f + 13 * k + 13 * j) (fdata f))
                     = hdr_bytes 3 0 0 (last_head (s sinfo ! j)))
     \<and> (0 < nat n \<longrightarrow> last_head (s sinfo ! 0) \<noteq> 0)
     \<and> num_streams sinfo = n \<and> 0 \<le> n"
proof -
  let ?si = "\<lparr>s = replicate (nat n) zero_stream, num_streams = n, fd = f, bufsize = 0,
              cur_pos = 0, initial_pos = int (fpos f), total_read = 0\<rparr>"
  from assms have n0: "0 \<le> n" and ih: "in_headers ?si 0 (nat n) = Some sinfo"
    by (auto simp: open_stream_in_def calloc_streams_def sys_lseek_cur_def Let_def
             split: if_splits option.splits)
  have len: "nat n \<le> length (s ?si)" by simp
  from in_headers_post[OF ih len] obtain k where k:
     "fd sinfo = (fd ?si)\<lparr>fpos := fpos (fd ?si) + 13 * k + 13 * (nat n - 0)\<rparr>"
     "initial_pos sinfo = initial_pos ?si + 13 * int k"
     "total_read sinfo = total_read ?si + 13 * of_nat (nat n - 0)"
     "(0::nat) \<noteq> 0 \<or> nat n = 0 \<longrightarrow> k = 0"
     "\<forall>m<k. take 13 (drop (fpos (fd ?si) + 13 * m) (fdata (fd ?si))) = hdr_bytes 3 0 0 0"
     "length (s sinfo) = length (s ?si)"
     "\<forall>j<length (s ?si). buf (s sinfo ! j) = buf (s ?si ! j)
           \<and> buflen (s sinfo ! j) = buflen (s ?si ! j) \<and> bufp (s sinfo ! j) = bufp (s ?si ! j)
           \<and> bzip_level (s sinfo ! j) = bzip_level (s ?si ! j)
           \<and> (\<not> (0 \<le> j \<and> j < nat n) \<longrightarrow> last_head (s sinfo ! j) = last_head (s ?si ! j))"
     "\<forall>j. 0 \<le> j \<and> j < nat n \<longrightarrow>
           take 13 (drop (fpos (fd ?si) + 13 * k + 13 * (j - 0)) (fdata (fd ?si)))
           = hdr_bytes 3 0 0 (last_head (s sinfo ! j))"
     "(0::nat) = 0 \<and> 0 < nat n \<longrightarrow> last_head (s sinfo ! 0) \<noteq> 0"
     "num_streams sinfo = num_streams ?si"
    by (elim exE conjE) (rule that, assumption+)
  have 1: "fd sinfo = f\<lparr>fpos := fpos f + 13 * k + 13 * nat n\<rparr>" using k(1) by simp
  have 2: "initial_pos sinfo = int (fpos f) + 13 * int k" using k(2) by simp
  have 3: "total_read sinfo = 13 * of_nat (nat n)" using k(3) by simp
  have 4: "nat n = 0 \<longrightarrow> k = 0" using k(4) by simp
  have 5: "\<forall>m<k. take 13 (drop (fpos f + 13 * m) (fdata f)) = hdr_bytes 3 0 0 0"
    using k(5) by simp
  have 6: "length (s sinfo) = nat n" using k(6) by simp
  have 7: "\<forall>j<nat n. buf (s sinfo ! j) = None \<and> buflen (s sinfo ! j) = 0 \<and> bufp (s sinfo ! j) = 0"
    using k(7) by (simp add: zero_stream_def)
  have 8: "\<forall>j<nat n. take 13 (drop (fpos f + 13 * k + 13 * j) (fdata f))
                     = hdr_bytes 3 0 0 (last_head (s sinfo ! j))"
    using k(8) by simp
  have 9: "0 < nat n \<longrightarrow> last_head (s sinfo ! 0) \<noteq> 0" using k(9) by simp
  have 10: "num_streams sinfo = n" using k(10) by simp
  show ?thesis
    by (rule exI[of _ k]) (intro conjI 1 2 3 4 5 6 7 8 9 10 n0)
qed

lemmas open_defs = open_stream_in_def calloc_streams_def zero_stream_def sizeof_stream_def
  sizeof_stream_info_def

subsection \<open>Filling a buffer\<close>

lemma seekto_ok:
  assumes "0 \<le> initial_pos sinfo"
  shows "seekto sinfo pos =
     (0, sinfo\<lparr>fd := (fd sinfo)\<lparr>fpos := nat (uint pos + initial_pos sinfo)\<rparr>\<rparr>)"
proof -
  have "0 \<le> uint pos + initial_pos sinfo" using assms by (simp add: add_nonneg_nonneg)
  then show ?thesis by (simp add: seekto_def sys_lseek_set_def)
qed

lemma fill_buffer_at:
  assumes i: "stream < length (s sinfo)" and ip: "0 \<le> initial_pos sinfo"
    and hdr: "drop (nat (uint (last_head (s sinfo ! stream)) + initial_pos sinfo))
                (fdata (fd sinfo)) = hdr_bytes c_type c_len u_len nx @ rest"
  shows "fill_buffer e sinfo stream =
     (let f5 = (fd sinfo)\<lparr>fpos := nat (uint (last_head (s sinfo ! stream)) + initial_pos sinfo) + 13\<rparr>;
          sinfo6 = (upd_s (sinfo\<lparr>fd := f5\<rparr>) stream (\<lambda>st. st\<lparr>last_head := nx\<rparr>))
                     \<lparr>total_read := total_read sinfo + 13\<rparr>
      in case malloc e (unat u_len) of
           None \<Rightarrow> Ret (-1, upd_s sinfo6 stream (\<lambda>st. st\<lparr>buf := None\<rparr>))
         | Some b \<Rightarrow>
             (case read_buf f5 (sint c_len) of (r7, bs, f7) \<Rightarrow>
                if length bs > length b then MemFault
                else let sinfo7 = upd_s (sinfo6\<lparr>fd := f7\<rparr>) stream
                                    (\<lambda>st. st\<lparr>buf := Some (store b 0 bs)\<rparr>)
                     in if r7 \<noteq> 0 then Ret (-1, sinfo7)
                        else let sinfo8 = sinfo7\<lparr>total_read := total_read sinfo7 + c_len\<rparr>;
                                 sinfo9 = upd_s sinfo8 stream
                                            (\<lambda>st. st\<lparr>buflen := sint u_len, bufp := 0\<rparr>)
                             in (case decompress_buf e (s sinfo9 ! stream) c_len (uint c_type) of
                                   MemFault \<Rightarrow> MemFault
                                 | Ret (r10, st) \<Rightarrow>
                                     if r10 \<noteq> 0 then Ret (-1, upd_s sinfo9 stream (\<lambda>_. st))
                                     else Ret (0, upd_s sinfo9 stream (\<lambda>_. st)))))"
proof -
  let ?P = "nat (uint (last_head (s sinfo ! stream)) + initial_pos sinfo)"
  let ?f = "(fd sinfo)\<lparr>fpos := ?P\<rparr>"
  have "drop (fpos ?f) (fdata ?f) = hdr_bytes c_type c_len u_len nx @ rest"
    using hdr by simp
  note rd = read_header_at[OF this]
  note rd' = rd[simplified]
  show ?thesis
    unfolding fill_buffer_def
    using i by (simp add: seekto_ok[OF ip] rd' Let_def upd_s_def
                     split: option.split prod.split result.split)
qed

lemma sint_small: "unat (w :: u32) < 2 ^ 31 \<Longrightarrow> sint w = int (unat w)"
  using sint_of_nat_u32[of "unat w"] by simp

subsection \<open>The read loop\<close>

lemma decompress_buf_frame:
  "decompress_buf e st c_len c_type = Ret (r, st') \<Longrightarrow>
     last_head st' = last_head st \<and> buflen st' = buflen st \<and> bufp st' = bufp st
     \<and> bzip_level st' = bzip_level st"
  by (auto simp: decompress_buf_def Let_def split: if_splits option.splits)

lemma fill_buffer_success_bufp:
  assumes "fill_buffer e sinfo stream = Ret (0, sinfo')"
  shows "bufp (s sinfo' ! stream) = 0 \<and> stream < length (s sinfo') "
  using assms unfolding fill_buffer_def Let_def
  by (auto simp: seekto_eq upd_s_def dest!: decompress_buf_frame
           split: if_splits prod.splits result.splits option.splits)

lemma read_outcome_transfer:
  assumes q: "read_outcome e stream p1 len1 ret1 r out sinfo'"
    and a: "0 \<le> len1" "len1 \<le> len" "ret1 = ret + (len - len1)"
    and p1: "p1 = p @ d0" "int (length d0) = len - len1"
  shows "read_outcome e stream p len ret r out sinfo'"
proof -
  from q consider
    (full) d where "r = ret1 + len1" "out = p1 @ d" "int (length d) = len1"
  | (eos) d sinfo1 where "ret1 \<le> r" "r < ret1 + len1" "out = p1 @ d" "int (length d) = r - ret1"
      "fill_buffer e sinfo1 stream = Ret (0, sinfo')"
      "bufp (s sinfo' ! stream) = buflen (s sinfo' ! stream)"
  | (err) d sinfo1 r1 where "r = -1" "out = p1 @ d"
      "fill_buffer e sinfo1 stream = Ret (r1, sinfo')" "r1 \<noteq> 0"
    unfolding read_outcome_def by blast
  then show ?thesis
  proof cases
    case full
    have "r = ret + len" using full(1) a(3) by simp
    moreover have "out = p @ (d0 @ d)" using full(2) p1(1) by simp
    moreover have "int (length (d0 @ d)) = len" using full(3) p1(2) by simp
    ultimately show ?thesis unfolding read_outcome_def by blast
  next
    case eos
    have "ret \<le> r" "r < ret + len" using eos(1,2) a by simp_all
    moreover have "out = p @ (d0 @ d)" using eos(3) p1(1) by simp
    moreover have "int (length (d0 @ d)) = r - ret" using eos(4) p1(2) a(3) by simp
    ultimately show ?thesis unfolding read_outcome_def using eos(5,6) by blast
  next
    case err
    have "out = p @ (d0 @ d)" using err(2) p1(1) by simp
    then show ?thesis unfolding read_outcome_def using err(1,3,4) by blast
  qed
qed

lemma read_loop_outcomes:
  assumes "read_loop e sinfo stream p len ret = Some y"
  shows "0 \<le> len \<longrightarrow> (\<forall>r out sinfo'. y = Ret (r, out, sinfo')
            \<longrightarrow> read_outcome e stream p len ret r out sinfo')"
proof (rule read_loop.raw_induct[where P = "\<lambda>e sinfo stream p len ret y.
          0 \<le> len \<longrightarrow> (\<forall>r out sinfo'. y = Ret (r, out, sinfo')
            \<longrightarrow> read_outcome e stream p len ret r out sinfo')", OF _ assms], goal_cases)
  case (1 rl e sinfo stream p len ret y)
  show ?case
  proof (intro impI allI)
    fix r out sinfo'
    assume len0: "0 \<le> len" and y: "y = Ret (r, out, sinfo')"
    show "read_outcome e stream p len ret r out sinfo'"
    proof (cases "len = 0")
      case True
      with 1(2) y have "r = ret" "out = p @ []" by simp_all
      with True show ?thesis unfolding read_outcome_def by auto
    next
      case False
      with len0 have lenp: "0 < len" by simp
      define st where "st = s sinfo ! stream"
      define n where "n = MIN_c (buflen st - bufp st) len"
      define ph1 where "ph1 = (if 0 < n
                   then case buf st of None \<Rightarrow> MemFault
                        | Some b \<Rightarrow>
                            if bufp st < 0 \<or> length b < nat (bufp st) + nat n
                            then MemFault
                            else Ret (upd_s sinfo stream (\<lambda>st. st\<lparr>bufp := bufp st + n\<rparr>),
                                      p @ take (nat n) (drop (nat (bufp st)) b), len - n, ret + n)
                   else Ret (sinfo, p, len, ret))"
      have body: "(case ph1 of
              MemFault \<Rightarrow> Some MemFault
              | Ret (sinfo1, p1, len1, ret1) \<Rightarrow>
                  if len1 \<noteq> 0 \<and> bufp (s sinfo1 ! stream) = buflen (s sinfo1 ! stream)
                  then case fill_buffer e sinfo1 stream of
                       MemFault \<Rightarrow> Some MemFault
                       | Ret (r, sinfo2) \<Rightarrow>
                           if r \<noteq> 0 then Some (Ret (- 1, p1, sinfo2))
                           else if bufp (s sinfo2 ! stream) = buflen (s sinfo2 ! stream)
                                then Some (Ret (ret1, p1, sinfo2))
                                else rl e sinfo2 stream p1 len1 ret1
                  else rl e sinfo1 stream p1 len1 ret1) = Some y"
        using 1(2) False unfolding ph1_def n_def st_def Let_def by simp
      from body y obtain sinfo1 p1 len1 ret1 where ph1: "ph1 = Ret (sinfo1, p1, len1, ret1)"
        by (cases ph1) auto
      have nle: "n \<le> len" unfolding n_def MIN_c_def by simp
      have A: "0 \<le> len1 \<and> len1 \<le> len \<and> ret1 = ret + (len - len1)
               \<and> (\<exists>d0. p1 = p @ d0 \<and> int (length d0) = len - len1)"
      proof (cases "0 < n")
        case False
        with ph1 have "p1 = p @ []" "len1 = len" "ret1 = ret" unfolding ph1_def by simp_all
        with len0 show ?thesis by simp
      next
        case True
        with ph1 obtain b where b: "buf st = Some b"
          and nb: "\<not> (bufp st < 0 \<or> length b < nat (bufp st) + nat n)"
          and eq: "p1 = p @ take (nat n) (drop (nat (bufp st)) b)" "len1 = len - n" "ret1 = ret + n"
          unfolding ph1_def by (auto split: option.splits if_splits)
        have "length (take (nat n) (drop (nat (bufp st)) b)) = nat n"
          using nb by (simp add: min_def) arith
        with eq nle True show ?thesis by simp
      qed
      then obtain d0 where a: "0 \<le> len1" "len1 \<le> len" "ret1 = ret + (len - len1)"
        and p1: "p1 = p @ d0" "int (length d0) = len - len1"
        by blast
      note tr = read_outcome_transfer[OF _ a p1]
      show ?thesis
      proof (cases "len1 \<noteq> 0 \<and> bufp (s sinfo1 ! stream) = buflen (s sinfo1 ! stream)")
        case False
        with body ph1 have "rl e sinfo1 stream p1 len1 ret1 = Some y" by simp
        from 1(1)[OF this] a(1) y have "read_outcome e stream p1 len1 ret1 r out sinfo'" by blast
        then show ?thesis by (rule tr)
      next
        case True
        with body ph1 have b2: "(case fill_buffer e sinfo1 stream of
                       MemFault \<Rightarrow> Some MemFault
                       | Ret (r, sinfo2) \<Rightarrow>
                           if r \<noteq> 0 then Some (Ret (- 1, p1, sinfo2))
                           else if bufp (s sinfo2 ! stream) = buflen (s sinfo2 ! stream)
                                then Some (Ret (ret1, p1, sinfo2))
                                else rl e sinfo2 stream p1 len1 ret1) = Some y" by simp
        with y obtain r1 sinfo2 where fb: "fill_buffer e sinfo1 stream = Ret (r1, sinfo2)"
          by (cases "fill_buffer e sinfo1 stream") auto
        show ?thesis
        proof (cases "r1 \<noteq> 0")
          case True
          with b2 fb y have "r = -1" "out = p1 @ []" "sinfo' = sinfo2" by simp_all
          with fb True have "read_outcome e stream p1 len1 ret1 r out sinfo'"
            unfolding read_outcome_def by blast
          then show ?thesis by (rule tr)
        next
          case r0: False
          show ?thesis
          proof (cases "bufp (s sinfo2 ! stream) = buflen (s sinfo2 ! stream)")
            case eos: True
            with b2 fb y r0 have e: "r = ret1" "out = p1 @ []" "sinfo' = sinfo2" by simp_all
            have "0 < len1" using True a(1) by simp
            with e fb r0 eos have "read_outcome e stream p1 len1 ret1 r out sinfo'"
              unfolding read_outcome_def by auto
            then show ?thesis by (rule tr)
          next
            case False
            with b2 fb r0 have "rl e sinfo2 stream p1 len1 ret1 = Some y" by simp
            from 1(1)[OF this] a(1) y have "read_outcome e stream p1 len1 ret1 r out sinfo'"
              by blast
            then show ?thesis by (rule tr)
          qed
        qed
      qed
    qed
  qed
qed

subsection \<open>The iterations of a read\<close>

lemma read_loop_unfold:
  "read_loop e sinfo stream p len ret =
     (if len = 0 then Some (Ret (ret, p, sinfo))
      else case read_copy sinfo stream p len ret of
             MemFault \<Rightarrow> Some MemFault
           | Ret (sinfo1, p1, len1, ret1) \<Rightarrow>
               if len1 \<noteq> 0 \<and> bufp (s sinfo1 ! stream) = buflen (s sinfo1 ! stream)
               then (case fill_buffer e sinfo1 stream of
                       MemFault \<Rightarrow> Some MemFault
                     | Ret (r, sinfo2) \<Rightarrow>
                         if r \<noteq> 0 then Some (Ret (-1, p1, sinfo2))
                         else if bufp (s sinfo2 ! stream) = buflen (s sinfo2 ! stream)
                         then Some (Ret (ret1, p1, sinfo2))
                         else read_loop e sinfo2 stream p1 len1 ret1)
               else read_loop e sinfo1 stream p1 len1 ret1)"
  by (subst read_loop.simps) (simp add: read_copy_def Let_def)

lemma read_iter_step:
  assumes "read_iter e stream (sinfo, p, len, ret) (sinfo', p', len', ret')"
  shows "read_loop e sinfo stream p len ret = read_loop e sinfo' stream p' len' ret'"
  using assms
  by (subst read_loop_unfold)
     (auto simp: read_iter_def split: result.splits if_splits prod.splits)

lemma read_iter_steps:
  assumes "(read_iter e stream)\<^sup>*\<^sup>* x y"
  shows "read_loop e (fst x) stream (fst (snd x)) (fst (snd (snd x))) (snd (snd (snd x)))
       = read_loop e (fst y) stream (fst (snd y)) (fst (snd (snd y))) (snd (snd (snd y)))"
  using assms
proof (induct rule: rtranclp_induct)
  case base
  show ?case by simp
next
  case (step y z)
  obtain a b c d where y: "y = (a, b, c, d)" by (cases y) auto
  obtain a' b' c' d' where z: "z = (a', b', c', d')" by (cases z) auto
  from step(2) have "read_loop e a stream b c d = read_loop e a' stream b' c' d'"
    unfolding y z by (rule read_iter_step)
  with step(3) show ?case by (simp add: y z)
qed

lemma read_loop_fill_fails:
  assumes "l \<noteq> 0" and "read_copy si stream p l ret = Ret (si1, p1, l1, ret1)"
    and "l1 \<noteq> 0" and "bufp (s si1 ! stream) = buflen (s si1 ! stream)"
    and "fill_buffer e si1 stream = Ret (r1, si2)" and "r1 \<noteq> 0"
  shows "read_loop e si stream p l ret = Some (Ret (-1, p1, si2))"
  using assms by (subst read_loop_unfold) simp

lemma read_stream_fill_fails:
  assumes i: "stream < length (s sinfo)"
    and reach: "(read_iter e stream)\<^sup>*\<^sup>* (sinfo, [], len, 0) (si, p, l, ret)"
    and "l \<noteq> 0" and "read_copy si stream p l ret = Ret (si1, p1, l1, ret1)"
    and "l1 \<noteq> 0" and "bufp (s si1 ! stream) = buflen (s si1 ! stream)"
    and "fill_buffer e si1 stream = Ret (r1, si2)" and "r1 \<noteq> 0"
  shows "read_stream e sinfo stream len = Some (Ret (-1, p1, si2))"
proof -
  from read_iter_steps[OF reach]
  have "read_loop e sinfo stream [] len 0 = read_loop e si stream p l ret" by simp
  also have "\<dots> = Some (Ret (-1, p1, si2))"
    by (rule read_loop_fill_fails) fact+
  finally show ?thesis using i by (simp add: read_stream_def)
qed

lemma read_copy_length:
  "read_copy si stream p l ret = Ret (si1, p1, l1, ret1) \<Longrightarrow> length (s si1) = length (s si)"
  by (auto simp: read_copy_def Let_def upd_s_def split: if_splits option.splits)

lemma fill_buffer_length:
  assumes "fill_buffer e sinfo stream = Ret (r, sinfo')"
  shows "length (s sinfo') = length (s sinfo)"
  using assms unfolding fill_buffer_def Let_def
  by (auto simp: seekto_eq upd_s_def
           split: if_splits prod.splits result.splits option.splits)

lemma read_iter_length:
  assumes "read_iter e stream x y"
  shows "length (s (fst y)) = length (s (fst x))"
proof -
  obtain a b c d where x: "x = (a, b, c, d)" by (cases x) auto
  from assms have ri: "read_iter e stream (a, b, c, d) y" by (simp add: x)
  then have nf: "read_copy a stream b c d \<noteq> MemFault"
    by (auto simp: read_iter_def)
  then obtain si1 p1 l1 r1 where cp: "read_copy a stream b c d = Ret (si1, p1, l1, r1)"
    by (cases "read_copy a stream b c d") auto
  from ri have rest: "if l1 \<noteq> 0 \<and> bufp (s si1 ! stream) = buflen (s si1 ! stream)
               then (case fill_buffer e si1 stream of
                       MemFault \<Rightarrow> False
                     | Ret (r, si2) \<Rightarrow>
                         r = 0 \<and> bufp (s si2 ! stream) \<noteq> buflen (s si2 ! stream)
                         \<and> y = (si2, p1, l1, r1))
               else y = (si1, p1, l1, r1)"
    unfolding read_iter_def by (simp add: cp)
  note l1 = read_copy_length[OF cp]
  show ?thesis
  proof (cases "l1 \<noteq> 0 \<and> bufp (s si1 ! stream) = buflen (s si1 ! stream)")
    case False
    with rest have "y = (si1, p1, l1, r1)" by simp
    with l1 show ?thesis by (simp add: x)
  next
    case True
    with rest have c: "case fill_buffer e si1 stream of
                       MemFault \<Rightarrow> False
                     | Ret (r, si2) \<Rightarrow>
                         r = 0 \<and> bufp (s si2 ! stream) \<noteq> buflen (s si2 ! stream)
                         \<and> y = (si2, p1, l1, r1)" by simp
    then obtain r si2 where fb: "fill_buffer e si1 stream = Ret (r, si2)"
      and y: "y = (si2, p1, l1, r1)"
      by (cases "fill_buffer e si1 stream") auto
    from fill_buffer_length[OF fb] l1 show ?thesis by (simp add: x y)
  qed
qed

lemma read_iter_steps_length:
  assumes "(read_iter e stream)\<^sup>*\<^sup>* x y"
  shows "length (s (fst y)) = length (s (fst x))"
  using assms
proof (induct rule: rtranclp_induct)
  case base
  show ?case by simp
next
  case (step y z)
  from read_iter_length[OF step(2)] step(3) show ?case by simp
qed

subsection \<open>Every error of a fill is reported\<close>

lemma sint_nonneg_u32:
  assumes "0 \<le> sint (w :: u32)"
  shows "sint w = int (unat w)"
proof (cases "unat w < 2 ^ 31")
  case True
  then show ?thesis by (rule sint_small)
next
  case False
  then have "(2 :: nat) ^ 31 \<le> unat w" by (simp only: not_less)
  then have "int (2 ^ 31) \<le> int (unat w)" by (simp only: of_nat_le_iff)
  then have "(2 :: int) ^ 31 \<le> uint w" by simp
  then have "signed_take_bit 31 (uint w) \<le> uint w - 2 ^ Suc 31"
    by (rule signed_take_bit_int_less_eq)
  then have a: "signed_take_bit 31 (uint w) \<le> uint w - 4294967296" by simp
  have b: "sint w = signed_take_bit 31 (uint w)" by (simp add: sint_uint)
  have c: "uint w < 4294967296" using uint_lt2p[of w] by simp
  from a b c assms show ?thesis by linarith
qed

lemma fill_seek_fails:
  assumes i: "stream < length (s sinfo)"
    and neg: "uint (last_head (s sinfo ! stream)) + initial_pos sinfo < -1"
  shows "fill_buffer e sinfo stream = Ret (-1, sinfo)"
proof -
  have "seekto sinfo (last_head (s sinfo ! stream)) = (-1, sinfo)"
    using neg by (simp add: seekto_eq)
  then show ?thesis
    unfolding fill_buffer_def using i by simp
qed

lemma fill_header_short:
  assumes i: "stream < length (s sinfo)" and ip: "0 \<le> initial_pos sinfo"
    and short: "length (chunk_at sinfo stream) < 13"
  shows "\<exists>sinfo'. fill_buffer e sinfo stream = Ret (-1, sinfo')"
proof -
  let ?P = "nat (uint (last_head (s sinfo ! stream)) + initial_pos sinfo)"
  let ?f = "(fd sinfo)\<lparr>fpos := ?P\<rparr>"
  let ?s1 = "sinfo\<lparr>fd := ?f\<rparr>"
  note sk = seekto_ok[OF ip, of "last_head (s sinfo ! stream)"]
  obtain o1 f1 where r1: "read_u8 ?f = (o1, f1)" by (cases "read_u8 ?f") auto
  obtain o2 f2 where r2: "read_u32 f1 = (o2, f2)" by (cases "read_u32 f1") auto
  obtain o3 f3 where r3: "read_u32 f2 = (o3, f3)" by (cases "read_u32 f2") auto
  obtain o4 f4 where r4: "read_u32 f3 = (o4, f4)" by (cases "read_u32 f3") auto
  show ?thesis
  proof (cases o1)
    case None
    have "fill_buffer e sinfo stream = Ret (-1, ?s1\<lparr>fd := f1\<rparr>)"
      unfolding fill_buffer_def using i r1 None by (simp add: sk)
    then show ?thesis by (rule exI)
  next
    case c: (Some c)
    show ?thesis
    proof (cases o2)
      case None
      have "fill_buffer e sinfo stream = Ret (-1, ?s1\<lparr>fd := f2\<rparr>)"
        unfolding fill_buffer_def using i r1 r2 c None by (simp add: sk)
      then show ?thesis by (rule exI)
    next
      case l: (Some l)
      show ?thesis
      proof (cases o3)
        case None
        have "fill_buffer e sinfo stream = Ret (-1, ?s1\<lparr>fd := f3\<rparr>)"
          unfolding fill_buffer_def using i r1 r2 r3 c l None by (simp add: sk)
        then show ?thesis by (rule exI)
      next
        case u: (Some u)
        show ?thesis
        proof (cases o4)
          case None
          have "fill_buffer e sinfo stream = Ret (-1, ?s1\<lparr>fd := f4\<rparr>)"
            unfolding fill_buffer_def using i r1 r2 r3 r4 c l u None by (simp add: sk)
          then show ?thesis by (rule exI)
        next
          case n: (Some n)
          have "take 13 (drop (fpos ?f) (fdata ?f)) = hdr_bytes c l u n"
            using r1 r2 r3 r4 unfolding c l u n by (rule read_header_Some(2))
          then have "length (take 13 (drop ?P (fdata (fd sinfo)))) = 13"
            by (simp add: length_hdr_bytes)
          with short have False by (simp add: chunk_at_def)
          then show ?thesis ..
        qed
      qed
    qed
  qed
qed

lemma read_buf_neg:
  assumes "len < 0" "- 9223372036854775808 \<le> len"
  shows "read_buf f len = (-1, [], f)"
proof -
  have "(len + 18446744073709551616) mod 18446744073709551616 = len + 18446744073709551616"
    using assms by (intro mod_pos_pos_trivial) linarith+
  then have m: "len mod 18446744073709551616 = len + 18446744073709551616" by simp
  have n: "(9223372036854775808 :: nat) \<le> nat (len + 18446744073709551616)"
    using assms by linarith
  show ?thesis
    unfolding read_buf_def sys_read_def using m n by simp
qed

lemma sint_bounds_u32: "- 2147483648 \<le> sint (w :: u32)" "sint w < 2147483648"
  using sint_ge[of w] sint_lt[of w] by simp_all

lemma fill_alloc_fails:
  assumes i: "stream < length (s sinfo)" and ip: "0 \<le> initial_pos sinfo"
    and hdr: "chunk_at sinfo stream = hdr_bytes c_type c_len u_len nx @ rest"
    and no: "\<not> malloc_ok e (unat u_len)"
  shows "\<exists>sinfo'. fill_buffer e sinfo stream = Ret (-1, sinfo')"
proof -
  note eq = fill_buffer_at[OF i ip hdr[unfolded chunk_at_def]]
  have m: "malloc e (unat u_len) = None" using no by (simp add: malloc_def)
  show ?thesis unfolding eq by (simp add: Let_def m)
qed

lemma fill_payload_short:
  assumes i: "stream < length (s sinfo)" and ip: "0 \<le> initial_pos sinfo"
    and hdr: "chunk_at sinfo stream = hdr_bytes c_type c_len u_len nx @ rest"
    and ok: "malloc_ok e (unat u_len)"
    and short: "sint c_len < 0 \<or> length rest < unat c_len \<and> length rest \<le> unat u_len"
  shows "\<exists>sinfo'. fill_buffer e sinfo stream = Ret (-1, sinfo')"
proof -
  let ?P = "nat (uint (last_head (s sinfo ! stream)) + initial_pos sinfo)"
  let ?f5 = "(fd sinfo)\<lparr>fpos := ?P + 13\<rparr>"
  note eq = fill_buffer_at[OF i ip hdr[unfolded chunk_at_def]]
  have m: "malloc e (unat u_len) = Some (fresh e (unat u_len))" using ok by (simp add: malloc_def)
  have lb: "length (fresh e (unat u_len)) = unat u_len" by (simp add: fresh_def)
  have "drop 13 (drop ?P (fdata (fd sinfo))) = rest"
    using hdr by (simp add: chunk_at_def length_hdr_bytes)
  then have dr: "drop (fpos ?f5) (fdata ?f5) = rest" by (simp add: add.commute)
  have "\<exists>bs f7. read_buf ?f5 (sint c_len) = (-1, bs, f7) \<and> length bs \<le> unat u_len"
  proof (cases "sint c_len < 0")
    case True
    have "read_buf ?f5 (sint c_len) = (-1, [], ?f5)"
      using True sint_bounds_u32(1)[of c_len] by (intro read_buf_neg) linarith+
    then show ?thesis by simp
  next
    case False
    then have nn: "0 \<le> sint c_len" by simp
    have lt: "sint c_len < 2 ^ 63" using sint_bounds_u32(2)[of c_len] by simp
    have n: "nat (sint c_len) = unat c_len" using sint_nonneg_u32[OF nn] by simp
    from False short have sh: "length rest < unat c_len" "length rest \<le> unat u_len" by simp_all
    have "read_buf ?f5 (sint c_len) = (-1, take (unat c_len) rest,
             ?f5\<lparr>fpos := fpos ?f5 + length (take (unat c_len) rest)\<rparr>)"
      unfolding read_buf_eq[OF nn lt] Let_def dr n using sh by simp
    moreover have "length (take (unat c_len) rest) \<le> unat u_len" using sh by simp
    ultimately show ?thesis by blast
  qed
  then obtain bs f7 where rb: "read_buf ?f5 (sint c_len) = (-1, bs, f7)"
    and le: "length bs \<le> unat u_len" by blast
  show ?thesis unfolding eq using rb le by (simp add: Let_def m lb)
qed

lemma decompress_buf_fails:
  assumes b: "buf st = Some cb" and bl: "buflen st = sint (u_len :: u32)"
    and ok: "malloc_ok e (unat u_len)" and fit: "unat c_len \<le> length cb"
    and ty: "c_type \<noteq> CTYPE_NONE"
    and dec: "case BZ2_bzBuffToBuffDecompress e (unat u_len) (take (unat c_len) cb) of
                None \<Rightarrow> True | Some out \<Rightarrow> length out \<noteq> unat u_len"
  shows "\<exists>st'. decompress_buf e st c_len c_type = Ret (-1, st')"
proof -
  have dl: "(of_int (buflen st) :: u32) = u_len" unfolding bl by simp
  show ?thesis
  proof (cases "BZ2_bzBuffToBuffDecompress e (unat u_len) (take (unat c_len) cb)")
  case None
  then show ?thesis
    unfolding decompress_buf_def Let_def dl using b ok fit ty by (simp add: malloc_def)
next
  case (Some out)
  with dec have ne: "length out \<noteq> unat u_len" by simp
  from Some have "length out \<le> unat u_len"
    by (simp add: BZ2_bzBuffToBuffDecompress_def split: option.splits if_splits)
  moreover have "unat (of_nat (length out) :: u32) \<le> length out" by (simp add: unat_of_nat)
  ultimately have "(of_nat (length out) :: u32) \<noteq> u_len" using ne by auto
  then show ?thesis
    unfolding decompress_buf_def Let_def dl using b ok fit ty Some by (simp add: malloc_def)
  qed
qed

lemma case_dec_fails:
  assumes "\<exists>st'. d = Ret (-1 :: int, st')"
  shows "\<exists>sinfo'. (case d of MemFault \<Rightarrow> MemFault
                    | Ret (r10, st) \<Rightarrow> if r10 \<noteq> 0 then Ret (-1, g st) else Ret (0, g st))
                 = Ret (-1 :: int, sinfo')"
  using assms by auto

lemma fill_codec_fails:
  assumes i: "stream < length (s sinfo)" and ip: "0 \<le> initial_pos sinfo"
    and hdr: "chunk_at sinfo stream = hdr_bytes c_type c_len u_len nx @ rest"
    and ok: "malloc_ok e (unat u_len)"
    and nn: "0 \<le> sint c_len" and enough: "unat c_len \<le> length rest"
    and fit: "unat c_len \<le> unat u_len" and ty: "uint c_type \<noteq> CTYPE_NONE"
    and dec: "case BZ2_bzBuffToBuffDecompress e (unat u_len) (take (unat c_len) rest) of
                None \<Rightarrow> True | Some out \<Rightarrow> length out \<noteq> unat u_len"
  shows "\<exists>sinfo'. fill_buffer e sinfo stream = Ret (-1, sinfo')"
proof -
  let ?P = "nat (uint (last_head (s sinfo ! stream)) + initial_pos sinfo)"
  let ?f5 = "(fd sinfo)\<lparr>fpos := ?P + 13\<rparr>"
  let ?b = "fresh e (unat u_len)"
  let ?bs = "take (unat c_len) rest"
  let ?f7 = "?f5\<lparr>fpos := fpos ?f5 + length ?bs\<rparr>"
  let ?s6 = "(upd_s (sinfo\<lparr>fd := ?f5\<rparr>) stream (\<lambda>st. st\<lparr>last_head := nx\<rparr>))
                     \<lparr>total_read := total_read sinfo + 13\<rparr>"
  let ?s7 = "upd_s (?s6\<lparr>fd := ?f7\<rparr>) stream (\<lambda>st. st\<lparr>buf := Some (store ?b 0 ?bs)\<rparr>)"
  let ?s8 = "?s7\<lparr>total_read := total_read ?s7 + c_len\<rparr>"
  let ?s9 = "upd_s ?s8 stream (\<lambda>st. st\<lparr>buflen := sint u_len, bufp := 0\<rparr>)"
  note eq = fill_buffer_at[OF i ip hdr[unfolded chunk_at_def]]
  have m: "malloc e (unat u_len) = Some ?b" using ok by (simp add: malloc_def)
  have lb: "length ?b = unat u_len" by (simp add: fresh_def)
  have "drop 13 (drop ?P (fdata (fd sinfo))) = rest"
    using hdr by (simp add: chunk_at_def length_hdr_bytes)
  then have dr: "drop (fpos ?f5) (fdata ?f5) = rest" by (simp add: add.commute)
  have lt: "sint c_len < 2 ^ 63" using sint_bounds_u32(2)[of c_len] by simp
  have n: "nat (sint c_len) = unat c_len" using sint_nonneg_u32[OF nn] by simp
  have lbs: "length ?bs = unat c_len" using enough by simp
  have rb: "read_buf ?f5 (sint c_len) = (0, ?bs, ?f7)"
    unfolding read_buf_eq[OF nn lt] Let_def dr n using lbs by simp
  have ls: "length (store ?b 0 ?bs) = unat u_len"
    using fit lbs lb by (simp add: length_store)
  have tk: "take (unat c_len) (store ?b 0 ?bs) = ?bs"
    using take_store_0[of ?bs ?b] lbs by simp
  have fit': "unat c_len \<le> length (store ?b 0 ?bs)" using fit ls by simp
  have dec': "case BZ2_bzBuffToBuffDecompress e (unat u_len) (take (unat c_len) (store ?b 0 ?bs)) of
            None \<Rightarrow> True | Some out \<Rightarrow> length out \<noteq> unat u_len"
    unfolding tk by (rule dec)
  have dc: "\<exists>st'. decompress_buf e st c_len (uint c_type) = Ret (-1, st')"
    if "buf st = Some (store ?b 0 ?bs)" "buflen st = sint u_len" for st
    using that ok fit' ty dec' by (rule decompress_buf_fails)
  have le: "\<not> length ?b < length ?bs" using fit lbs lb by simp
  show ?thesis
    unfolding eq Let_def m rb option.case prod.case if_not_P[OF le]
    apply (simp only: simp_thms if_False)
    apply (rule case_dec_fails)
    apply (rule dc)
    using i apply (simp_all add: upd_s_def)
    done
qed

lemma fill_error_fails:
  assumes i: "stream < length (s sinfo)" and err: "fill_error e sinfo stream"
  shows "\<exists>sinfo'. fill_buffer e sinfo stream = Ret (-1, sinfo')"
proof -
  consider (seek) "uint (last_head (s sinfo ! stream)) + initial_pos sinfo < -1"
    | (hshort) "0 \<le> initial_pos sinfo" "length (chunk_at sinfo stream) < 13"
    | (alloc) c_type c_len u_len nx rest where "0 \<le> initial_pos sinfo"
        "chunk_at sinfo stream = hdr_bytes c_type c_len u_len nx @ rest"
        "\<not> malloc_ok e (unat u_len)"
    | (pshort) c_type c_len u_len nx rest where "0 \<le> initial_pos sinfo"
        "chunk_at sinfo stream = hdr_bytes c_type c_len u_len nx @ rest"
        "malloc_ok e (unat u_len)"
        "sint c_len < 0 \<or> length rest < unat c_len \<and> length rest \<le> unat u_len"
    | (codec) c_type c_len u_len nx rest where "0 \<le> initial_pos sinfo"
        "chunk_at sinfo stream = hdr_bytes c_type c_len u_len nx @ rest"
        "malloc_ok e (unat u_len)" "0 \<le> sint c_len" "unat c_len \<le> length rest"
        "unat c_len \<le> unat u_len" "uint c_type \<noteq> CTYPE_NONE"
        "case BZ2_bzBuffToBuffDecompress e (unat u_len) (take (unat c_len) rest) of
                None \<Rightarrow> True | Some out \<Rightarrow> length out \<noteq> unat u_len"
    using err unfolding fill_error_def by blast
  then show ?thesis
  proof cases
    case seek
    from fill_seek_fails[OF i seek] show ?thesis by (rule exI)
  next
    case hshort
    then show ?thesis by (rule fill_header_short[OF i])
  next
    case alloc
    then show ?thesis by (rule fill_alloc_fails[OF i])
  next
    case pshort
    then show ?thesis by (rule fill_payload_short[OF i])
  next
    case codec
    then show ?thesis by (rule fill_codec_fails[OF i])
  qed
qed

lemma fill_errorI_codec:
  assumes "0 \<le> initial_pos sinfo"
    and "chunk_at sinfo stream = hdr_bytes c_type c_len u_len nx @ rest"
    and "malloc_ok e (unat u_len)" and "0 \<le> sint c_len" and "unat c_len \<le> length rest"
    and "unat c_len \<le> unat u_len" and "uint c_type \<noteq> CTYPE_NONE"
    and "BZ2_bzBuffToBuffDecompress e (unat u_len) (take (unat c_len) rest) = None"
  shows "fill_error e sinfo stream"
proof -
  from assms(8)
  have "case BZ2_bzBuffToBuffDecompress e (unat u_len) (take (unat c_len) rest) of
          None \<Rightarrow> True | Some out \<Rightarrow> length out \<noteq> unat u_len" by simp
  with assms(1-7) show ?thesis unfolding fill_error_def by blast
qed

subsection \<open>The u32 wire codec\<close>

text \<open>
  Claim C7. For every 32-bit value \<open>v\<close>, \<^verbatim>\<open>write_u32\<close> on a writable descriptor
  returns 0 and stores at the file offset the four bytes of \<open>v\<close> in little-endian order
  (low half first, each half low byte first), and fails with -1 on a descriptor that is
  not writable; \<^verbatim>\<open>read_u32\<close> positioned at those four bytes returns exactly \<open>v\<close> and
  has advanced the offset by 4.
\<close>

theorem write_u32_read_u32_roundtrip:
  "write_u32 f v =
     (if fwritable f
      then (0, f\<lparr>fdata := overwrite (fdata f) (fpos f) (le_bytes v), fpos := fpos f + 4\<rparr>)
      else (-1, f))
   \<and> read_u32 \<lparr>fdata = pre @ le_bytes v @ post, fpos = length pre, fwritable = w\<rparr> =
       (Some v, \<lparr>fdata = pre @ le_bytes v @ post, fpos = length pre + 4, fwritable = w\<rparr>)"
proof
  show "write_u32 f v =
     (if fwritable f
      then (0, f\<lparr>fdata := overwrite (fdata f) (fpos f) (le_bytes v), fpos := fpos f + 4\<rparr>)
      else (-1, f))"
    by (simp add: write_u32_eq u32_bytes_le)
next
  let ?f = "\<lparr>fdata = pre @ le_bytes v @ post, fpos = length pre, fwritable = w\<rparr>"
  have "drop (fpos ?f) (fdata ?f) = u32_bytes v @ post"
    by (simp add: u32_bytes_le)
  from read_u32_at[OF this]
  show "read_u32 ?f = (Some v, \<lparr>fdata = pre @ le_bytes v @ post, fpos = length pre + 4,
                                fwritable = w\<rparr>)"
    by simp
qed

subsection \<open>The compression gateway\<close>

text \<open>
  Claim C5. \<^verbatim>\<open>compress_buf\<close> has no failure of its own to hand to the enclosing
  flush. For a stream whose buffer is allocated and holds \<open>buflen\<close> bytes,
  \<open>0 < buflen\<close> (the state in which \<^verbatim>\<open>flush_buffer\<close> is called), it returns; either
  the stream, \<open>c_type\<close> and \<open>c_len\<close> are all unchanged, or the buffer was replaced,
  \<open>c_type\<close> is block-compressed and \<open>c_len\<close> is at most \<open>buflen - 1\<close>, the new
  buffer of \<open>buflen - 1\<close> bytes holding the codec's output in its first \<open>c_len\<close>
  bytes. When the level is 0, when the allocation of the \<open>buflen - 1\<close> bytes fails, or
  when the codec reports failure, everything is left unchanged.
\<close>

theorem compress_buf_fallback:
  assumes b: "buf st = Some b" and pos: "0 < buflen st" and cap: "nat (buflen st) \<le> length b"
    and int: "buflen st < 2 ^ 31"
  shows "(\<exists>st' c_type' c_len'.
            compress_buf e st c_type c_len = Ret (st', c_type', c_len') \<and>
            (st' = st \<and> c_type' = c_type \<and> c_len' = c_len \<or>
             st' \<noteq> st \<and> c_type' = CTYPE_BZIP2 \<and> uint c_len' \<le> buflen st - 1 \<and>
             (\<exists>c. buf st' = Some c \<and> length c = nat (buflen st - 1) \<and>
                  BZ2_bzBuffToBuffCompress e (nat (buflen st - 1)) (take (nat (buflen st)) b)
                    (bzip_level st) (bzip_level st * 10) = Some (take (unat c_len') c))))
         \<and> (bzip_level st = 0 \<or> malloc e (nat (buflen st - 1)) = None \<or>
              BZ2_bzBuffToBuffCompress e (nat (buflen st - 1)) (take (nat (buflen st)) b)
                (bzip_level st) (bzip_level st * 10) = None
              \<longrightarrow> compress_buf e st c_type c_len = Ret (st, c_type, c_len))"
proof -
  note eq = compress_buf_cases[OF assms, of e c_type c_len]
  show ?thesis
  proof (cases "bzip_level st = 0")
    case True
    then show ?thesis using eq by simp
  next
    case lvl: False
    show ?thesis
    proof (cases "malloc e (nat (buflen st - 1))")
      case None
      then show ?thesis using eq lvl by simp
    next
      case (Some c_buf)
      then have lc: "length c_buf = nat (buflen st - 1)"
        by (rule length_malloc)
      show ?thesis
      proof (cases "BZ2_bzBuffToBuffCompress e (nat (buflen st - 1)) (take (nat (buflen st)) b)
                       (bzip_level st) (bzip_level st * 10)")
        case None
        then show ?thesis using eq lvl Some by simp
      next
        case out: (Some out)
        from BZ2_compress_length[OF out] have le: "length out \<le> nat (buflen st - 1)" .
        let ?st' = "st\<lparr>buf := Some (store c_buf 0 out)\<rparr>"
        have res: "compress_buf e st c_type c_len = Ret (?st', CTYPE_BZIP2, of_nat (length out))"
          using eq lvl Some out by simp
        have lst: "length (store c_buf 0 out) = nat (buflen st - 1)"
          using le lc by (simp add: length_store)
        have ne: "?st' \<noteq> st"
        proof
          assume "?st' = st"
          then have "buf ?st' = buf st" by simp
          then have "length (store c_buf 0 out) = length b" using b by simp
          then show False using lst cap pos by simp
        qed
        have "int (length out) < 2 ^ 32"
          using le int pos by simp
        then have small: "length out < 2 ^ 32"
          by (metis of_nat_less_numeral_power_cancel_iff)
        have ul: "unat (of_nat (length out) :: u32) = length out"
          using small by (rule unat_of_nat_u32)
        have ui: "uint (of_nat (length out) :: u32) \<le> buflen st - 1"
          using le pos by (simp add: uint_of_nat_u32[OF small])
        have "\<exists>c. buf ?st' = Some c \<and> length c = nat (buflen st - 1) \<and>
                  BZ2_bzBuffToBuffCompress e (nat (buflen st - 1)) (take (nat (buflen st)) b)
                    (bzip_level st) (bzip_level st * 10)
                  = Some (take (unat (of_nat (length out) :: u32)) c)"
          using out lst by (simp add: ul take_store_0)
        with res ne ui out lvl Some show ?thesis
          by (intro conjI exI[of _ ?st'] exI[of _ CTYPE_BZIP2] exI[of _ "of_nat (length out)"])
             simp_all
      qed
    qed
  qed
qed

theorem compress_buf_fallback_witness:
  "buf (s demo_out ! 0) = Some [65, 65, 65] \<and> 0 < buflen (s demo_out ! 0)
   \<and> nat (buflen (s demo_out ! 0)) \<le> length [65, 65, 65 :: uchar]
   \<and> buflen (s demo_out ! 0) < 2 ^ 31
   \<and> (\<exists>st' c_type' c_len'.
         compress_buf toy_env (s demo_out ! 0) CTYPE_NONE 3 = Ret (st', c_type', c_len') \<and>
         (st' = s demo_out ! 0 \<and> c_type' = CTYPE_NONE \<and> c_len' = 3 \<or>
          st' \<noteq> s demo_out ! 0 \<and> c_type' = CTYPE_BZIP2 \<and>
          uint c_len' \<le> buflen (s demo_out ! 0) - 1 \<and>
          (\<exists>c. buf st' = Some c \<and> length c = nat (buflen (s demo_out ! 0) - 1) \<and>
               BZ2_bzBuffToBuffCompress toy_env (nat (buflen (s demo_out ! 0) - 1))
                 (take (nat (buflen (s demo_out ! 0))) [65, 65, 65])
                 (bzip_level (s demo_out ! 0)) (bzip_level (s demo_out ! 0) * 10)
               = Some (take (unat c_len') c))))
   \<and> compress_buf toy_env (s demo_out ! 0) CTYPE_NONE 3 =
       Ret ((s demo_out ! 0)\<lparr>buf := Some [3, 65]\<rparr>, CTYPE_BZIP2, 2)"
proof -
  have h: "buf (s demo_out ! 0) = Some [65, 65, 65]" "0 < buflen (s demo_out ! 0)"
    "nat (buflen (s demo_out ! 0)) \<le> length [65, 65, 65 :: uchar]"
    "buflen (s demo_out ! 0) < 2 ^ 31"
    by (simp_all add: demo_out_def)
  have ev: "compress_buf toy_env (s demo_out ! 0) CTYPE_NONE 3 =
       Ret ((s demo_out ! 0)\<lparr>buf := Some [3, 65]\<rparr>, CTYPE_BZIP2, 2)"
    by (simp add: demo_out_def eval_defs fresh_def)
  from compress_buf_fallback[OF h, of toy_env CTYPE_NONE 3] h ev show ?thesis
    by blast
qed

subsection \<open>Flushing\<close>

text \<open>
  Claim C6. After a successful \<^verbatim>\<open>flush_buffer\<close> on a stream, the stream's
  \<open>last_head\<close> is the \<open>cur_pos\<close> from before the flush plus 9, its \<open>buflen\<close> is 0,
  and \<open>cur_pos\<close> has advanced by \<open>13 + c_len\<close>, where \<open>c_len\<close> is the length that
  \<^verbatim>\<open>compress_buf\<close> returned for the stream (all in 32-bit arithmetic).
\<close>

theorem flush_buffer_positions:
  assumes "flush_buffer e sinfo i = Ret (0, sinfo')"
  shows "last_head (s sinfo' ! i) = cur_pos sinfo + 9 \<and> buflen (s sinfo' ! i) = 0 \<and>
     (\<exists>st c_type c_len.
        compress_buf e ((s sinfo ! i)\<lparr>last_head := cur_pos sinfo + 9\<rparr>) CTYPE_NONE
          (of_int (buflen (s sinfo ! i))) = Ret (st, c_type, c_len)
        \<and> cur_pos sinfo' = cur_pos sinfo + 13 + c_len)"
  using assms unfolding flush_buffer_def Let_def
  by (auto simp: seekto_eq upd_s_def dest: compress_buf_frame
           split: if_splits prod.splits result.splits option.splits)

theorem flush_buffer_positions_witness:
  "flush_buffer toy_env demo_out 0 = Ret (0, demo_flushed) \<and>
   (last_head (s demo_flushed ! 0) = cur_pos demo_out + 9 \<and> buflen (s demo_flushed ! 0) = 0 \<and>
    (\<exists>st c_type c_len.
        compress_buf toy_env ((s demo_out ! 0)\<lparr>last_head := cur_pos demo_out + 9\<rparr>) CTYPE_NONE
          (of_int (buflen (s demo_out ! 0))) = Ret (st, c_type, c_len)
        \<and> cur_pos demo_flushed = cur_pos demo_out + 13 + c_len))"
proof -
  have ev: "flush_buffer toy_env demo_out 0 = Ret (0, demo_flushed)"
    by (simp add: demo_out_def demo_flushed_def eval_defs)
  show ?thesis
    by (rule conjI[OF ev flush_buffer_positions[OF ev]])
qed

subsection \<open>Write errors while opening\<close>

text \<open>
  Claim C10. \<^verbatim>\<open>open_stream_out\<close> does not look at the results of the writes that
  emit the initial headers: on a descriptor that is not writable every \<^verbatim>\<open>write_u8\<close>
  and \<^verbatim>\<open>write_u32\<close> fails with -1 and leaves the file as it is, and still (the
  allocations succeeding) \<^verbatim>\<open>open_stream_out\<close> returns a session, with \<open>cur_pos\<close>
  advanced by 13 for each of the \<open>n\<close> streams and the file untouched.
\<close>

theorem open_stream_out_ignores_write_errors:
  assumes ro: "\<not> fwritable f" and n: "0 \<le> n"
    and m1: "malloc_ok e sizeof_stream_info"
    and m2: "malloc_ok e (sizeof_stream * nat n)"
    and m3: "malloc_ok e (unat (if l = 0 then 100 * 1024 else of_int (100 * 1024 * l) :: u32))"
  shows "(\<forall>c. write_u8 f c = (-1, f)) \<and> (\<forall>v. write_u32 f v = (-1, f)) \<and>
         (\<exists>sinfo. open_stream_out e f n l = Some sinfo \<and> cur_pos sinfo = 13 * of_nat (nat n)
                  \<and> fd sinfo = f \<and> length (s sinfo) = nat n)"
proof -
  have "\<exists>sinfo. open_stream_out e f n l = Some sinfo \<and> cur_pos sinfo = 13 * of_nat (nat n)
                  \<and> fd sinfo = f \<and> length (s sinfo) = nat n"
    using ro by (simp add: open_stream_out_eq[OF n m1 m2 m3 refl] put_headers_def)
  then show ?thesis
    using ro by (simp add: write_u8_eq write_u32_eq)
qed

theorem open_stream_out_ignores_write_errors_witness:
  "\<not> fwritable ro_file \<and> (0::int) \<le> 2 \<and> malloc_ok toy_env sizeof_stream_info
   \<and> malloc_ok toy_env (sizeof_stream * nat 2)
   \<and> malloc_ok toy_env (unat (if (0::int) = 0 then 100 * 1024 else of_int (100 * 1024 * 0) :: u32))
   \<and> write_u8 ro_file 3 = (-1, ro_file) \<and> write_u32 ro_file 0 = (-1, ro_file)
   \<and> (\<exists>sinfo. open_stream_out toy_env ro_file 2 0 = Some sinfo \<and> cur_pos sinfo = 26
                \<and> fd sinfo = ro_file \<and> length (s sinfo) = 2)"
proof -
  have h: "\<not> fwritable ro_file" "(0::int) \<le> 2" "malloc_ok toy_env sizeof_stream_info"
    "malloc_ok toy_env (sizeof_stream * nat 2)"
    "malloc_ok toy_env (unat (if (0::int) = 0 then 100 * 1024 else of_int (100 * 1024 * 0) :: u32))"
    by (simp_all add: ro_file_def toy_env_def)
  from open_stream_out_ignores_write_errors[OF h] h show ?thesis
    by simp
qed

subsection \<open>Validation of the initial headers\<close>

text \<open>
  Claim C8. When \<^verbatim>\<open>open_stream_in\<close> returns a session, \<open>total_read\<close> is 13 times
  the number of streams (the skipped sentinel headers are not counted), and each of the
  \<open>n\<close> initial headers, the \<open>j\<close>-th at \<open>initial_pos + 13 j\<close> in the file, is a header
  with \<open>c_type = 3\<close>, \<open>c_len = 0\<close> and \<open>u_len = 0\<close> whose \<open>next_head\<close> became the
  stream's \<open>last_head\<close>: a header with another tag, or a nonzero \<open>c_len\<close> or
  \<open>u_len\<close>, makes the open return null. The file offset is left after the last header.
\<close>

theorem open_stream_in_validates:
  assumes "open_stream_in e f n = Some sinfo"
  shows "total_read sinfo = 13 * of_nat (nat n) \<and> length (s sinfo) = nat n \<and>
     (\<forall>j<nat n. take 13 (drop (nat (initial_pos sinfo) + 13 * j) (fdata f))
                  = hdr_bytes 3 0 0 (last_head (s sinfo ! j))) \<and>
     (\<forall>j c_type c_len u_len next_head.
         j < nat n \<and> take 13 (drop (nat (initial_pos sinfo) + 13 * j) (fdata f))
                      = hdr_bytes c_type c_len u_len next_head
         \<longrightarrow> c_type = 3 \<and> c_len = 0 \<and> u_len = 0 \<and> last_head (s sinfo ! j) = next_head) \<and>
     fd sinfo = f\<lparr>fpos := nat (initial_pos sinfo) + 13 * nat n\<rparr>"
proof -
  from open_stream_in_post[OF assms] obtain k where k:
     "fd sinfo = f\<lparr>fpos := fpos f + 13 * k + 13 * nat n\<rparr>"
     "initial_pos sinfo = int (fpos f) + 13 * int k"
     "total_read sinfo = 13 * of_nat (nat n)"
     "length (s sinfo) = nat n"
     "\<forall>j<nat n. take 13 (drop (fpos f + 13 * k + 13 * j) (fdata f))
                     = hdr_bytes 3 0 0 (last_head (s sinfo ! j))"
    by (elim exE conjE) (rule that, assumption+)
  have ip: "nat (initial_pos sinfo) = fpos f + 13 * k"
    using k(2) by simp
  have a: "\<forall>j<nat n. take 13 (drop (nat (initial_pos sinfo) + 13 * j) (fdata f))
                  = hdr_bytes 3 0 0 (last_head (s sinfo ! j))"
    using k(5) unfolding ip .
  have b: "\<forall>j c_type c_len u_len next_head.
         j < nat n \<and> take 13 (drop (nat (initial_pos sinfo) + 13 * j) (fdata f))
                      = hdr_bytes c_type c_len u_len next_head
         \<longrightarrow> c_type = 3 \<and> c_len = 0 \<and> u_len = 0 \<and> last_head (s sinfo ! j) = next_head"
  proof (intro allI impI)
    fix j c_type c_len u_len next_head
    assume h: "j < nat n \<and> take 13 (drop (nat (initial_pos sinfo) + 13 * j) (fdata f))
                      = hdr_bytes c_type c_len u_len next_head"
    then have "take 13 (drop (nat (initial_pos sinfo) + 13 * j) (fdata f))
                 = hdr_bytes 3 0 0 (last_head (s sinfo ! j))"
      using a by blast
    with h have "hdr_bytes c_type c_len u_len next_head = hdr_bytes 3 0 0 (last_head (s sinfo ! j))"
      by (elim conjE) (erule subst, assumption)
    from hdr_bytes_inj[OF this]
    show "c_type = 3 \<and> c_len = 0 \<and> u_len = 0 \<and> last_head (s sinfo ! j) = next_head" by simp
  qed
  have c: "fd sinfo = f\<lparr>fpos := nat (initial_pos sinfo) + 13 * nat n\<rparr>"
    using k(1) unfolding ip .
  show ?thesis by (intro conjI k(3) k(4) a b c)
qed

theorem open_stream_in_validates_witness:
  "\<exists>sinfo. open_stream_in toy_env one_sentinel 1 = Some sinfo \<and>
     total_read sinfo = 13 * of_nat (nat 1) \<and> length (s sinfo) = nat 1 \<and>
     take 13 (drop (nat (initial_pos sinfo) + 13 * 0) (fdata one_sentinel))
       = hdr_bytes 3 0 0 (last_head (s sinfo ! 0)) \<and>
     fd sinfo = one_sentinel\<lparr>fpos := nat (initial_pos sinfo) + 13 * nat 1\<rparr> \<and>
     initial_pos sinfo = 13 \<and> total_read sinfo = 13 \<and>
     open_stream_in toy_env bad_tag 1 = None"
proof -
  let ?si = "\<lparr>s = [\<lparr>last_head = 13, buf = None, buflen = 0, bufp = 0, bzip_level = 0\<rparr>],
              num_streams = 1, fd = one_sentinel\<lparr>fpos := 26\<rparr>,
              bufsize = 0, cur_pos = 0, initial_pos = 13, total_read = 13\<rparr>"
  have ev: "open_stream_in toy_env one_sentinel 1 = Some ?si"
    by (simp add: open_defs one_sentinel_def eval_defs)
  have bad: "open_stream_in toy_env bad_tag 1 = None"
    by (simp add: open_defs bad_tag_def eval_defs)
  note c = open_stream_in_validates[OF ev]
  from c have 1: "total_read ?si = 13 * of_nat (nat 1)" and 2: "length (s ?si) = nat 1"
    and 4: "fd ?si = one_sentinel\<lparr>fpos := nat (initial_pos ?si) + 13 * nat 1\<rparr>"
    by blast+
  from c have "\<forall>j<nat 1. take 13 (drop (nat (initial_pos ?si) + 13 * j) (fdata one_sentinel))
                  = hdr_bytes 3 0 0 (last_head (s ?si ! j))"
    by blast
  then have 3: "take 13 (drop (nat (initial_pos ?si) + 13 * 0) (fdata one_sentinel))
       = hdr_bytes 3 0 0 (last_head (s ?si ! 0))"
    by simp
  have 5: "initial_pos ?si = 13" "total_read ?si = 13" by simp_all
  show ?thesis
    by (rule exI[of _ ?si]) (intro conjI ev 1 2 3 4 5 bad)
qed


subsection \<open>The sentinel workaround\<close>

text \<open>
  Claim C3, as stated: the workaround is applied at most once per session. It fails: on
  a file that starts with two headers \<open>(3, 0, 0, 0)\<close> before the header of stream 0,
  \<^verbatim>\<open>open_stream_in\<close> succeeds and has applied the workaround twice.
\<close>

theorem workaround_twice:
  "map_option (workaround_count two_sentinels) (open_stream_in toy_env two_sentinels 1) = Some 2"
  by (simp add: open_defs two_sentinels_def workaround_count_def eval_defs)

text \<open>
  Claim C3, amended. The workaround is applied only while the header of stream 0 is
  read, once for every header \<open>(3, 0, 0, 0)\<close> at the front of the file (so possibly
  more than once): when \<^verbatim>\<open>open_stream_in\<close> returns a session, the \<open>k\<close> applications
  skipped \<open>k\<close> consecutive headers \<open>(3, 0, 0, 0)\<close>, the header then taken for stream 0
  is not \<open>(3, 0, 0, 0)\<close>, and the headers of the streams \<open>1..n-1\<close> are the ones that
  follow it directly, whatever their \<open>next_head\<close>: none is skipped.
\<close>

theorem open_stream_in_workaround:
  assumes "open_stream_in e f n = Some sinfo"
  shows "\<exists>k. workaround_count f sinfo = int k
     \<and> (\<forall>m<k. take 13 (drop (fpos f + 13 * m) (fdata f)) = hdr_bytes 3 0 0 0)
     \<and> (0 < n \<longrightarrow> take 13 (drop (fpos f + 13 * k) (fdata f)) \<noteq> hdr_bytes 3 0 0 0)
     \<and> (n \<le> 0 \<longrightarrow> k = 0)
     \<and> (\<forall>j<nat n. take 13 (drop (fpos f + 13 * k + 13 * j) (fdata f))
                     = hdr_bytes 3 0 0 (last_head (s sinfo ! j)))"
proof -
  from open_stream_in_post[OF assms] obtain k where k:
     "initial_pos sinfo = int (fpos f) + 13 * int k"
     "nat n = 0 \<longrightarrow> k = 0"
     "\<forall>m<k. take 13 (drop (fpos f + 13 * m) (fdata f)) = hdr_bytes 3 0 0 0"
     "\<forall>j<nat n. take 13 (drop (fpos f + 13 * k + 13 * j) (fdata f))
                     = hdr_bytes 3 0 0 (last_head (s sinfo ! j))"
     "0 < nat n \<longrightarrow> last_head (s sinfo ! 0) \<noteq> 0"
    by (elim exE conjE) (rule that, assumption+)
  have 1: "workaround_count f sinfo = int k"
    using k(1) by (simp add: workaround_count_def sys_lseek_cur_def)
  have 2: "0 < n \<longrightarrow> take 13 (drop (fpos f + 13 * k) (fdata f)) \<noteq> hdr_bytes 3 0 0 0"
  proof
    assume n: "0 < n"
    then have "take 13 (drop (fpos f + 13 * k + 13 * 0) (fdata f))
                     = hdr_bytes 3 0 0 (last_head (s sinfo ! 0))"
      using k(4) by (metis zero_less_nat_eq)
    moreover have "last_head (s sinfo ! 0) \<noteq> 0" using k(5) n by simp
    ultimately show "take 13 (drop (fpos f + 13 * k) (fdata f)) \<noteq> hdr_bytes 3 0 0 0"
      using hdr_bytes_inj[of 3 0 0 "last_head (s sinfo ! 0)" 3 0 0 0] by auto
  qed
  have 3: "n \<le> 0 \<longrightarrow> k = 0" using k(2) by simp
  show ?thesis by (rule exI[of _ k]) (intro conjI 1 k(3) 2 3 k(4))
qed

theorem open_stream_in_workaround_witness:
  "\<exists>sinfo. open_stream_in toy_env two_sentinels 1 = Some sinfo \<and>
     (\<exists>k. workaround_count two_sentinels sinfo = int k
     \<and> (\<forall>m<k. take 13 (drop (fpos two_sentinels + 13 * m) (fdata two_sentinels)) = hdr_bytes 3 0 0 0)
     \<and> (0 < (1::int) \<longrightarrow> take 13 (drop (fpos two_sentinels + 13 * k) (fdata two_sentinels))
                              \<noteq> hdr_bytes 3 0 0 0)
     \<and> ((1::int) \<le> 0 \<longrightarrow> k = 0)
     \<and> (\<forall>j<nat 1. take 13 (drop (fpos two_sentinels + 13 * k + 13 * j) (fdata two_sentinels))
                     = hdr_bytes 3 0 0 (last_head (s sinfo ! j))))"
proof -
  let ?si = "\<lparr>s = [\<lparr>last_head = 13, buf = None, buflen = 0, bufp = 0, bzip_level = 0\<rparr>],
              num_streams = 1, fd = two_sentinels\<lparr>fpos := 39\<rparr>,
              bufsize = 0, cur_pos = 0, initial_pos = 26, total_read = 13\<rparr>"
  have ev: "open_stream_in toy_env two_sentinels 1 = Some ?si"
    by (simp add: open_defs two_sentinels_def eval_defs)
  show ?thesis
    by (rule exI[of _ ?si]) (rule conjI[OF ev open_stream_in_workaround[OF ev]])
qed

subsection \<open>The payload read of a fill\<close>

text \<open>
  Claim C2. \<^verbatim>\<open>fill_buffer\<close> allocates \<open>u_len\<close> bytes and then reads \<open>c_len\<close>
  bytes into them, with no check of \<open>c_len\<close> against \<open>u_len\<close>: whenever the chunk
  header at \<open>last_head\<close> declares \<open>c_len > u_len\<close> (\<open>c_len\<close> below \<open>2^31\<close>), the
  allocation succeeds and the file holds more than \<open>u_len\<close> bytes after the header,
  the read stores bytes past the end of the block. Such a file exists, and
  \<^verbatim>\<open>read_stream\<close> on the session \<^verbatim>\<open>open_stream_in\<close> returns for it runs into it.
\<close>

theorem fill_buffer_overflow:
  assumes i: "stream < length (s sinfo)" and ip: "0 \<le> initial_pos sinfo"
    and hdr: "drop (nat (uint (last_head (s sinfo ! stream)) + initial_pos sinfo))
                (fdata (fd sinfo)) = hdr_bytes c_type c_len u_len nx @ rest"
    and m: "malloc_ok e (unat u_len)"
    and lt: "unat u_len < unat c_len" and small: "unat c_len < 2 ^ 31"
    and avail: "unat u_len < length rest"
  shows "fill_buffer e sinfo stream = MemFault"
proof -
  let ?P = "nat (uint (last_head (s sinfo ! stream)) + initial_pos sinfo)"
  let ?f5 = "(fd sinfo)\<lparr>fpos := ?P + 13\<rparr>"
  have sc: "sint c_len = int (unat c_len)" using small by (rule sint_small)
  have "drop (?P + 13) (fdata (fd sinfo)) = drop 13 (drop ?P (fdata (fd sinfo)))"
    by (simp add: add.commute)
  also have "\<dots> = rest" unfolding hdr by simp
  finally have rest: "drop (fpos ?f5) (fdata ?f5) = rest" by simp
  have rb: "read_buf ?f5 (sint c_len) =
      (if length (take (unat c_len) rest) = unat c_len then 0 else -1, take (unat c_len) rest,
       ?f5\<lparr>fpos := fpos ?f5 + length (take (unat c_len) rest)\<rparr>)"
    unfolding sc using small rest uint_lt2p[of c_len]
    by (subst read_buf_eq) (simp_all add: Let_def)
  have ml: "malloc e (unat u_len) = Some (fresh e (unat u_len))"
    using m by (simp add: malloc_def)
  have "length (fresh e (unat u_len)) < length (take (unat c_len) rest)"
    using lt avail by (simp add: fresh_def)
  then show ?thesis
    unfolding fill_buffer_at[OF i ip hdr] Let_def ml rb by simp
qed

theorem fill_buffer_overflow_witness:
  "open_stream_in toy_env overflow_file 1 = Some overflow_in \<and>
   0 < length (s overflow_in) \<and> 0 \<le> initial_pos overflow_in \<and>
   drop (nat (uint (last_head (s overflow_in ! 0)) + initial_pos overflow_in))
     (fdata (fd overflow_in)) = hdr_bytes 3 4 1 0 @ [65, 66, 67, 68] \<and>
   malloc_ok toy_env (unat (1 :: u32)) \<and> unat (1 :: u32) < unat (4 :: u32) \<and>
   unat (4 :: u32) < 2 ^ 31 \<and> unat (1 :: u32) < length [65, 66, 67, 68 :: uchar] \<and>
   fill_buffer toy_env overflow_in 0 = MemFault \<and>
   read_stream toy_env overflow_in 0 1 = Some MemFault"
proof -
  have ev: "open_stream_in toy_env overflow_file 1 = Some overflow_in"
    by (simp add: open_defs overflow_file_def overflow_in_def eval_defs)
  have h: "0 < length (s overflow_in)" "0 \<le> initial_pos overflow_in"
    "drop (nat (uint (last_head (s overflow_in ! 0)) + initial_pos overflow_in))
       (fdata (fd overflow_in)) = hdr_bytes 3 4 1 0 @ [65, 66, 67, 68]"
    "malloc_ok toy_env (unat (1 :: u32))" "unat (1 :: u32) < unat (4 :: u32)"
    "unat (4 :: u32) < 2 ^ 31" "unat (1 :: u32) < length [65, 66, 67, 68 :: uchar]"
    by (simp_all add: overflow_in_def overflow_file_def hdr_bytes_def u32_bytes_def
          u16_bytes_def toy_env_def)
  note mf = fill_buffer_overflow[OF h]
  have rs: "read_stream toy_env overflow_in 0 1 = Some MemFault"
    unfolding read_stream_def
    by (subst read_loop.simps)
       (simp add: mf[unfolded overflow_in_def] overflow_in_def MIN_c_def upd_s_def)
  show ?thesis by (intro conjI ev h mf rs)
qed

subsection \<open>What read\_stream returns\<close>



end
